theory Spec2Isabelle
  imports Complex_Main "HOL-Library.Multiset"
begin

section \<open>Data model\<close>

text \<open>
  The detector of \<^verbatim>\<open>src/core/detector.py\<close> works on plain Python values. A detection is
  the dictionary \<^verbatim>\<open>{'class': ..., 'box': ..., 'confidence': ...}\<close> built in
  \<^verbatim>\<open>process_frame\<close>; its box is the four-element list \<^verbatim>\<open>box.tolist()\<close> of
  coordinates \<^verbatim>\<open>[x1, y1, x2, y2]\<close>. Coordinates, confidences and clock readings are
  Python floats; they are modelled by real numbers, so rounding, overflow and NaN are
  outside the model. Person identifiers and weights are Python integers, modelled by
  \<open>int\<close>. A float division by zero raises \<^verbatim>\<open>ZeroDivisionError\<close>, which is the only
  exception the modelled functions can raise.
\<close>

datatype error = ZeroDivisionError

type_synonym box = "real \<times> real \<times> real \<times> real"

record detection =
  class_label :: string
  box :: box
  confidence :: real

text \<open>
  The dictionary literal of \<^verbatim>\<open>process_frame\<close>:
  \<^verbatim>\<open>{'class': ..., 'box': box.tolist(), 'confidence': float(conf)}\<close>.
\<close>

definition detection_of :: "string \<Rightarrow> box \<Rightarrow> real \<Rightarrow> detection" where
  "detection_of c b conf = \<lparr>class_label = c, box = b, confidence = conf\<rparr>"

text \<open>A tracked person is a person detection after \<^verbatim>\<open>person['id'] = ...\<close>.\<close>

record tracked_person = detection +
  pid :: int

section \<open>Geometry: intersection over union\<close>

definition calculate_iou :: "box \<Rightarrow> box \<Rightarrow> error + real" where
  "calculate_iou box1 box2 =
     (case box1 of (a0, a1, a2, a3) \<Rightarrow>
      case box2 of (b0, b1, b2, b3) \<Rightarrow>
        let x1 = max a0 b0;
            y1 = max a1 b1;
            x2 = min a2 b2;
            y2 = min a3 b3
        in if x2 < x1 \<or> y2 < y1 then Inr 0
           else
             let intersection = (x2 - x1) * (y2 - y1);
                 area1 = (a2 - a0) * (a3 - a1);
                 area2 = (b2 - b0) * (b3 - b1);
                 union_area = area1 + area2 - intersection
             in if union_area = 0 then Inl ZeroDivisionError
                else Inr (intersection / union_area))"

text \<open>The box invariant of the data model: \<open>x1 \<le> x2\<close> and \<open>y1 \<le> y2\<close>.\<close>

definition well_formed :: "box \<Rightarrow> bool" where
  "well_formed b = (case b of (x1, y1, x2, y2) \<Rightarrow> x1 \<le> x2 \<and> y1 \<le> y2)"

definition positive_area :: "box \<Rightarrow> bool" where
  "positive_area b = (case b of (x1, y1, x2, y2) \<Rightarrow> x1 < x2 \<and> y1 < y2)"

section \<open>Configuration\<close>

text \<open>The values of \<^verbatim>\<open>src/config/settings.py\<close> that the detector reads.\<close>

definition IOU_THRESHOLD :: real where
  "IOU_THRESHOLD = 0"

definition PPE_WEIGHTS :: "string \<rightharpoonup> int" where
  "PPE_WEIGHTS = [''Hardhat'' \<mapsto> 40, ''Safety Vest'' \<mapsto> 40, ''Mask'' \<mapsto> 20]"

section \<open>Assigning equipment to persons\<close>

text \<open>The sort key: \<^verbatim>\<open>(x['box'][2]-x['box'][0])*(x['box'][3]-x['box'][1])\<close>.\<close>

definition box_area :: "detection \<Rightarrow> real" where
  "box_area x = (case box x of (b0, b1, b2, b3) \<Rightarrow> (b2 - b0) * (b3 - b1))"

text \<open>
  \<^verbatim>\<open>sorted(xs, key=k, reverse=True)\<close>: a stable sort in descending key order. Python
  reverses the list, sorts it stably in ascending order and reverses the result, so that
  items with equal keys keep their input order.
\<close>

definition sorted_reverse :: "('a \<Rightarrow> real) \<Rightarrow> 'a list \<Rightarrow> 'a list" where
  "sorted_reverse key xs = rev (sort_key key (rev xs))"

text \<open>
  The inner loop \<^verbatim>\<open>for person in persons\<close>, with the loop variables
  \<^verbatim>\<open>best_iou\<close> and \<^verbatim>\<open>best_person\<close> as accumulators. An exception of
  \<^verbatim>\<open>calculate_iou\<close> leaves the loop. The threshold is a parameter; the program
  uses \<open>IOU_THRESHOLD\<close>.
\<close>

fun best_person_loop ::
  "real \<Rightarrow> tracked_person list \<Rightarrow> detection \<Rightarrow> real \<Rightarrow> tracked_person option
     \<Rightarrow> error + tracked_person option" where
  "best_person_loop thr [] ppe best_iou best_person = Inr best_person"
| "best_person_loop thr (person # persons) ppe best_iou best_person =
     (case calculate_iou (box person) (box ppe) of
        Inl e \<Rightarrow> Inl e
      | Inr current_iou \<Rightarrow>
          if current_iou > best_iou \<and> current_iou \<ge> thr
          then best_person_loop thr persons ppe current_iou (Some person)
          else best_person_loop thr persons ppe best_iou best_person)"

text \<open>
  \<^verbatim>\<open>assigned_ppe\<close> is a \<^verbatim>\<open>defaultdict(list)\<close>: reading a missing key inserts
  the empty list before \<^verbatim>\<open>append\<close>.
\<close>

type_synonym assignment = "int \<rightharpoonup> detection list"

definition append_item :: "assignment \<Rightarrow> int \<Rightarrow> detection \<Rightarrow> assignment" where
  "append_item assigned_ppe k ppe =
     assigned_ppe(k \<mapsto> (case assigned_ppe k of None \<Rightarrow> [] | Some l \<Rightarrow> l) @ [ppe])"

fun assign_loop ::
  "real \<Rightarrow> tracked_person list \<Rightarrow> detection list \<Rightarrow> assignment \<Rightarrow> error + assignment" where
  "assign_loop thr persons [] assigned_ppe = Inr assigned_ppe"
| "assign_loop thr persons (ppe # rest) assigned_ppe =
     (case best_person_loop thr persons ppe 0 None of
        Inl e \<Rightarrow> Inl e
      | Inr None \<Rightarrow> assign_loop thr persons rest assigned_ppe
      | Inr (Some best_person) \<Rightarrow>
          assign_loop thr persons rest (append_item assigned_ppe (pid best_person) ppe))"

definition assign_ppe_to_persons ::
  "real \<Rightarrow> tracked_person list \<Rightarrow> detection list \<Rightarrow> error + assignment" where
  "assign_ppe_to_persons thr persons ppe_items =
     assign_loop thr persons (sorted_reverse box_area ppe_items) Map.empty"

section \<open>Scoring\<close>

text \<open>
  The loop \<^verbatim>\<open>for ppe in assigned_ppe[pid]: score += PPE_WEIGHTS.get(ppe['class'], 0)\<close>.
  The weight table is a parameter; the program uses \<open>PPE_WEIGHTS\<close>.
\<close>

fun add_weights :: "(string \<rightharpoonup> int) \<Rightarrow> detection list \<Rightarrow> int \<Rightarrow> int" where
  "add_weights weights [] score = score"
| "add_weights weights (ppe # rest) score =
     add_weights weights rest
       (score + (case weights (class_label ppe) of None \<Rightarrow> 0 | Some w \<Rightarrow> w))"

fun scores_loop ::
  "(string \<rightharpoonup> int) \<Rightarrow> tracked_person list \<Rightarrow> assignment \<Rightarrow> (int \<rightharpoonup> int) \<Rightarrow> (int \<rightharpoonup> int)" where
  "scores_loop weights [] assigned_ppe scores = scores"
| "scores_loop weights (person # rest) assigned_ppe scores =
     (let k = pid person;
          score = (case assigned_ppe k of
                     Some items \<Rightarrow> add_weights weights items 0
                   | None \<Rightarrow> 0)
      in scores_loop weights rest assigned_ppe (scores(k \<mapsto> max 0 (min 100 score))))"

definition calculate_ppe_scores ::
  "(string \<rightharpoonup> int) \<Rightarrow> tracked_person list \<Rightarrow> assignment \<Rightarrow> (int \<rightharpoonup> int)" where
  "calculate_ppe_scores weights persons assigned_ppe =
     scores_loop weights persons assigned_ppe Map.empty"

section \<open>Tracking persons across frames\<close>

text \<open>
  The detector object keeps \<^verbatim>\<open>id_counter\<close> and the dictionary
  \<^verbatim>\<open>tracked_persons\<close>. The nearest-track search iterates over the dictionary, and a
  Python dictionary iterates in insertion order, so the dictionary is an association
  list with distinct keys: assigning to a present key replaces its value in place,
  assigning to a new key appends.
\<close>

record track_data =
  center :: "real \<times> real"
  timestamp :: real

record ppe_detector =
  id_counter :: int
  tracked_persons :: "(int \<times> track_data) list"

text \<open>\<^verbatim>\<open>__init__\<close>: \<^verbatim>\<open>self.id_counter = 0; self.tracked_persons = {}\<close>.\<close>

definition init_detector :: ppe_detector where
  "init_detector = \<lparr>id_counter = 0, tracked_persons = []\<rparr>"

fun dict_set :: "int \<Rightarrow> 'v \<Rightarrow> (int \<times> 'v) list \<Rightarrow> (int \<times> 'v) list" where
  "dict_set k v [] = [(k, v)]"
| "dict_set k v ((k', v') # rest) =
     (if k' = k then (k, v) # rest else (k', v') # dict_set k v rest)"

text \<open>
  The loop \<^verbatim>\<open>for pid, data in self.tracked_persons.items()\<close>. \<^verbatim>\<open>min_distance\<close>
  starts at \<^verbatim>\<open>float('inf')\<close>, which is \<open>None\<close> here.
\<close>

fun nearest_loop ::
  "real \<Rightarrow> real \<Rightarrow> (int \<times> track_data) list \<Rightarrow> int option \<Rightarrow> real option \<Rightarrow> int option" where
  "nearest_loop cx cy [] matched_id min_distance = matched_id"
| "nearest_loop cx cy ((k, data) # rest) matched_id min_distance =
     (case center data of (prev_cx, prev_cy) \<Rightarrow>
        let distance = sqrt ((cx - prev_cx)\<^sup>2 + (cy - prev_cy)\<^sup>2)
        in if distance < 50 \<and> (case min_distance of None \<Rightarrow> True | Some m \<Rightarrow> distance < m)
           then nearest_loop cx cy rest (Some k) (Some distance)
           else nearest_loop cx cy rest matched_id min_distance)"

definition with_id :: "detection \<Rightarrow> int \<Rightarrow> tracked_person" where
  "with_id person k =
     \<lparr>class_label = class_label person, box = box person,
      confidence = confidence person, pid = k\<rparr>"

text \<open>
  The body of \<^verbatim>\<open>for person in current_persons\<close>. \<open>now\<close> is the value that
  \<^verbatim>\<open>time.time()\<close> returns while this detection is processed.
\<close>

definition track_one :: "real \<Rightarrow> ppe_detector \<Rightarrow> detection \<Rightarrow> tracked_person \<times> ppe_detector" where
  "track_one now s person =
     (case box person of (b0, b1, b2, b3) \<Rightarrow>
        let cx = (b0 + b2) / 2;
            cy = (b1 + b3) / 2
        in case nearest_loop cx cy (tracked_persons s) None None of
             Some matched_id \<Rightarrow>
               (with_id person matched_id,
                s\<lparr>tracked_persons :=
                    dict_set matched_id \<lparr>center = (cx, cy), timestamp = now\<rparr>
                      (tracked_persons s)\<rparr>)
           | None \<Rightarrow>
               let c = id_counter s + 1
               in (with_id person c,
                   s\<lparr>id_counter := c,
                     tracked_persons :=
                       dict_set c \<lparr>center = (cx, cy), timestamp = now\<rparr>
                         (tracked_persons s)\<rparr>))"

text \<open>
  The wall clock is an input: \<open>clock i\<close> is what \<^verbatim>\<open>time.time()\<close> returns for the
  detection at position \<open>i\<close> of the frame, and \<open>clock n\<close>, for a frame of \<open>n\<close> person
  detections, is \<^verbatim>\<open>current_time\<close> of the clean-up.
\<close>

fun track_loop ::
  "(nat \<Rightarrow> real) \<Rightarrow> nat \<Rightarrow> ppe_detector \<Rightarrow> detection list
     \<Rightarrow> tracked_person list \<times> ppe_detector" where
  "track_loop clock i s [] = ([], s)"
| "track_loop clock i s (person # rest) =
     (case track_one (clock i) s person of (p, s') \<Rightarrow>
      case track_loop clock (Suc i) s' rest of (updated_persons, s'') \<Rightarrow>
        (p # updated_persons, s''))"

definition purge :: "real \<Rightarrow> (int \<times> track_data) list \<Rightarrow> (int \<times> track_data) list" where
  "purge current_time tracks =
     filter (\<lambda>(k, data). current_time - timestamp data < 2) tracks"

definition track_persons ::
  "(nat \<Rightarrow> real) \<Rightarrow> ppe_detector \<Rightarrow> detection list \<Rightarrow> tracked_person list \<times> ppe_detector" where
  "track_persons clock s current_persons =
     (case track_loop clock 0 s current_persons of (updated_persons, s1) \<Rightarrow>
        let current_time = clock (length current_persons)
        in (updated_persons,
            s1\<lparr>tracked_persons := purge current_time (tracked_persons s1)\<rparr>))"

text \<open>
  Successive calls of \<^verbatim>\<open>track_persons\<close> on one detector, one per frame, as the video
  loops of the interfaces make them through \<^verbatim>\<open>process_frame\<close>. Each frame comes with
  its clock readings.
\<close>

fun track_frames ::
  "ppe_detector \<Rightarrow> ((nat \<Rightarrow> real) \<times> detection list) list
     \<Rightarrow> tracked_person list list \<times> ppe_detector" where
  "track_frames s [] = ([], s)"
| "track_frames s ((clock, current_persons) # frames) =
     (case track_persons clock s current_persons of (out, s') \<Rightarrow>
      case track_frames s' frames of (outs, s'') \<Rightarrow> (out # outs, s''))"

section \<open>Processing one frame\<close>

text \<open>
  \<^verbatim>\<open>process_frame\<close> from the point where the external detector has produced the list
  \<^verbatim>\<open>detections\<close>; resizing and inference are not modelled, and the image is left out
  of the result, whose entries \<^verbatim>\<open>'persons'\<close>, \<^verbatim>\<open>'ppe_items'\<close> and
  \<^verbatim>\<open>'scores'\<close> are the fields of \<open>frame_result\<close>. The tracker has already been
  updated when the assignment raises. The weight table is a parameter; the program uses
  \<open>PPE_WEIGHTS\<close>, of which \<open>Person\<close> is not a key, so that no detection is in both
  lists. With a table that has the key \<open>Person\<close> the two Python lists would share the
  person dictionaries, and the \<^verbatim>\<open>'id'\<close> that the tracker writes into them would show
  in the equipment list; the properties below exclude such a table.
\<close>

record frame_result =
  result_persons :: "tracked_person list"
  result_ppe_items :: "detection list"
  result_scores :: "int \<rightharpoonup> int"

definition process_frame ::
  "(string \<rightharpoonup> int) \<Rightarrow> real \<Rightarrow> (nat \<Rightarrow> real) \<Rightarrow> ppe_detector \<Rightarrow> detection list
     \<Rightarrow> (error + frame_result) \<times> ppe_detector" where
  "process_frame weights thr clock s detections =
     (let persons = filter (\<lambda>d. class_label d = ''Person'') detections;
          ppe_items = filter (\<lambda>d. weights (class_label d) \<noteq> None) detections
      in case track_persons clock s persons of (tracked, s') \<Rightarrow>
           (case assign_ppe_to_persons thr tracked ppe_items of
              Inl e \<Rightarrow> (Inl e, s')
            | Inr assigned_ppe \<Rightarrow>
                (Inr \<lparr>result_persons = tracked, result_ppe_items = ppe_items,
                      result_scores = calculate_ppe_scores weights tracked assigned_ppe\<rparr>,
                 s')))"

section \<open>Notions used to state the properties\<close>

text \<open>The centroid of a box and the Euclidean distance, as \<^verbatim>\<open>track_persons\<close> computes them.\<close>

definition centroid :: "box \<Rightarrow> real \<times> real" where
  "centroid b = (case b of (b0, b1, b2, b3) \<Rightarrow> ((b0 + b2) / 2, (b1 + b3) / 2))"

definition euclid :: "real \<times> real \<Rightarrow> real \<times> real \<Rightarrow> real" where
  "euclid p q = sqrt ((fst p - fst q)\<^sup>2 + (snd p - snd q)\<^sup>2)"

definition track_ids :: "ppe_detector \<Rightarrow> int set" where
  "track_ids s = fst ` set (tracked_persons s)"


text \<open>
  The detections of a frame are far apart when the centroid of each is at least 50 pixels
  from the centroid of every earlier one.
\<close>

fun far_apart :: "detection list \<Rightarrow> bool" where
  "far_apart [] = True"
| "far_apart (d # ds) =
     ((\<forall>e \<in> set ds. 50 \<le> euclid (centroid (box e)) (centroid (box d))) \<and> far_apart ds)"

text \<open>
  The test \<^verbatim>\<open>distance < min_distance\<close> of the nearest-track search, with
  \<open>None\<close> for \<^verbatim>\<open>float('inf')\<close>.
\<close>

definition below :: "real option \<Rightarrow> real \<Rightarrow> bool" where
  "below md d = (case md of None \<Rightarrow> True | Some m \<Rightarrow> d < m)"

text \<open>
  The invariant of the detector object: the counter is not negative, and the dictionary
  has distinct keys, all of them positive and at most the counter.
\<close>

definition detector_inv :: "ppe_detector \<Rightarrow> bool" where
  "detector_inv s =
     (0 \<le> id_counter s \<and> distinct (map fst (tracked_persons s)) \<and>
      (\<forall>k \<in> fst ` set (tracked_persons s). 0 < k \<and> k \<le> id_counter s))"

text \<open>The items of an assignment under a person ID, a missing key read as no items.\<close>

definition items_of :: "assignment \<Rightarrow> int \<Rightarrow> detection list" where
  "items_of assigned_ppe k = (case assigned_ppe k of None \<Rightarrow> [] | Some l \<Rightarrow> l)"

text \<open>The raw score of a list of items: the sum of the weights of their class labels.\<close>

definition raw_score :: "(string \<rightharpoonup> int) \<Rightarrow> detection list \<Rightarrow> int" where
  "raw_score weights items =
     sum_list (map (\<lambda>ppe. case weights (class_label ppe) of None \<Rightarrow> 0 | Some w \<Rightarrow> w) items)"

definition clamp :: "int \<Rightarrow> int \<Rightarrow> int \<Rightarrow> int" where
  "clamp x lo hi = max lo (min hi x)"

text \<open>
  What \<^verbatim>\<open>assign_ppe_to_persons\<close> selects for an item: the person \<open>p\<close> at the first
  position of the list whose IoU against the item is the greatest of the list, provided
  that IoU is greater than \<open>0\<close> (the initial \<^verbatim>\<open>best_iou\<close>, which must be exceeded)
  and at least the threshold.
\<close>

definition selects :: "real \<Rightarrow> tracked_person list \<Rightarrow> detection \<Rightarrow> tracked_person \<Rightarrow> bool" where
  "selects thr ps ppe p =
     (\<exists>xs ys r. ps = xs @ p # ys \<and>
        calculate_iou (box p) (box ppe) = Inr r \<and> 0 < r \<and> thr \<le> r \<and>
        (\<forall>q \<in> set xs. \<exists>r'. calculate_iou (box q) (box ppe) = Inr r' \<and> r' < r) \<and>
        (\<forall>q \<in> set ys. \<exists>r'. calculate_iou (box q) (box ppe) = Inr r' \<and> r' \<le> r))"

text \<open>No IoU of a person with an item raises.\<close>

definition ious_defined :: "tracked_person list \<Rightarrow> detection list \<Rightarrow> bool" where
  "ious_defined ps items =
     (\<forall>p \<in> set ps. \<forall>i \<in> set items. \<exists>r. calculate_iou (box p) (box i) = Inr r)"

text \<open>The detection a tracked person was made from: the person without its \<^verbatim>\<open>'id'\<close>.\<close>

definition untracked :: "tracked_person \<Rightarrow> detection" where
  "untracked p = detection_of (class_label p) (box p) (confidence p)"

section \<open>Projections of constructed values\<close>

lemma with_id_simps [simp]:
  "pid (with_id d k) = k"
  "box (with_id d k) = box d"
  "class_label (with_id d k) = class_label d"
  "confidence (with_id d k) = confidence d"
  by (simp_all add: with_id_def)

lemma detection_of_simps [simp]:
  "class_label (detection_of c b conf) = c"
  "box (detection_of c b conf) = b"
  "confidence (detection_of c b conf) = conf"
  by (simp_all add: detection_of_def)

lemma untracked_with_id [simp]: "untracked (with_id d k) = d"
  by (simp add: untracked_def with_id_def detection_of_def)

section \<open>Properties of the intersection over union\<close>

lemma overlap_bounds:
  fixes a0 a2 b0 b2 :: real
  assumes "\<not> min a2 b2 < max a0 b0"
  shows "0 \<le> min a2 b2 - max a0 b0"
    and "min a2 b2 - max a0 b0 \<le> a2 - a0"
    and "min a2 b2 - max a0 b0 \<le> b2 - b0"
  using assms by (auto simp: min_def max_def split: if_splits)

text \<open>
  The three outcomes of \<open>calculate_iou\<close>: the early return, the division by zero, and a
  quotient of an intersection by a union that is at least as large.
\<close>

lemma calculate_iou_cases:
  obtains (degenerate) "calculate_iou a b = Inr 0"
  | (crash) "calculate_iou a b = Inl ZeroDivisionError"
  | (ratio) i u where "calculate_iou a b = Inr (i / u)" "0 \<le> i" "i \<le> u" "0 < u"
proof -
  obtain a0 a1 a2 a3 where a: "a = (a0, a1, a2, a3)" by (cases a) auto
  obtain b0 b1 b2 b3 where b: "b = (b0, b1, b2, b3)" by (cases b) auto
  define w where "w = min a2 b2 - max a0 b0"
  define h where "h = min a3 b3 - max a1 b1"
  define u where "u = (a2 - a0) * (a3 - a1) + (b2 - b0) * (b3 - b1) - w * h"
  show thesis
  proof (cases "min a2 b2 < max a0 b0 \<or> min a3 b3 < max a1 b1")
    case True
    then have "calculate_iou a b = Inr 0"
      by (simp add: calculate_iou_def a b Let_def)
    then show thesis by (rule degenerate)
  next
    case False
    then have nx: "\<not> min a2 b2 < max a0 b0" and ny: "\<not> min a3 b3 < max a1 b1" by auto
    have w: "0 \<le> w" "w \<le> a2 - a0" "w \<le> b2 - b0"
      unfolding w_def using overlap_bounds[OF nx] by auto
    have h: "0 \<le> h" "h \<le> a3 - a1" "h \<le> b3 - b1"
      unfolding h_def using overlap_bounds[OF ny] by auto
    have i0: "0 \<le> w * h" using w h by simp
    have i1: "w * h \<le> (a2 - a0) * (a3 - a1)" using w h by (simp add: mult_mono)
    have i2: "w * h \<le> (b2 - b0) * (b3 - b1)" using w h by (simp add: mult_mono)
    have iu: "w * h \<le> u" unfolding u_def using i1 i2 i0 by linarith
    show thesis
    proof (cases "u = 0")
      case True
      then have "calculate_iou a b = Inl ZeroDivisionError"
        using False by (simp add: calculate_iou_def a b Let_def w_def h_def u_def)
      then show thesis by (rule crash)
    next
      case False
      with iu i0 have "0 < u" by linarith
      moreover have "calculate_iou a b = Inr (w * h / u)"
        using \<open>u \<noteq> 0\<close> nx ny by (simp add: calculate_iou_def a b Let_def w_def h_def u_def)
      ultimately show thesis using i0 iu by (rule_tac ratio) auto
    qed
  qed
qed

lemma calculate_iou_range:
  assumes "calculate_iou a b = Inr r"
  shows "0 \<le> r \<and> r \<le> 1"
proof (cases a b rule: calculate_iou_cases)
  case degenerate
  with assms show ?thesis by simp
next
  case crash
  with assms show ?thesis by simp
next
  case (ratio i u)
  with assms have "r = i / u" by simp
  with ratio show ?thesis by simp
qed

lemma calculate_iou_commute: "calculate_iou a b = calculate_iou b a"
proof -
  obtain a0 a1 a2 a3 where a: "a = (a0, a1, a2, a3)" by (cases a) auto
  obtain b0 b1 b2 b3 where b: "b = (b0, b1, b2, b3)" by (cases b) auto
  show ?thesis
    by (simp add: calculate_iou_def a b Let_def min.commute max.commute add.commute)
qed

lemma calculate_iou_self:
  assumes "positive_area a"
  shows "calculate_iou a a = Inr 1"
proof -
  obtain a0 a1 a2 a3 where a: "a = (a0, a1, a2, a3)" by (cases a) auto
  from assms have "a0 < a2" "a1 < a3" by (simp_all add: positive_area_def a)
  then show ?thesis by (simp add: calculate_iou_def a Let_def)
qed

text \<open>A box with a positive area never takes part in a division by zero.\<close>

lemma calculate_iou_defined:
  assumes "positive_area a"
  shows "\<exists>r. calculate_iou a b = Inr r"
proof -
  obtain a0 a1 a2 a3 where a: "a = (a0, a1, a2, a3)" by (cases a) auto
  obtain b0 b1 b2 b3 where b: "b = (b0, b1, b2, b3)" by (cases b) auto
  from assms have pa: "a0 < a2" "a1 < a3" by (simp_all add: positive_area_def a)
  define w where "w = min a2 b2 - max a0 b0"
  define h where "h = min a3 b3 - max a1 b1"
  show ?thesis
  proof (cases "min a2 b2 < max a0 b0 \<or> min a3 b3 < max a1 b1")
    case True
    then show ?thesis by (simp add: calculate_iou_def a b Let_def)
  next
    case False
    then have nx: "\<not> min a2 b2 < max a0 b0" and ny: "\<not> min a3 b3 < max a1 b1" by auto
    have w: "0 \<le> w" "w \<le> a2 - a0" "w \<le> b2 - b0"
      unfolding w_def using overlap_bounds[OF nx] by auto
    have h: "0 \<le> h" "h \<le> a3 - a1" "h \<le> b3 - b1"
      unfolding h_def using overlap_bounds[OF ny] by auto
    have i2: "w * h \<le> (b2 - b0) * (b3 - b1)" using w h by (simp add: mult_mono)
    have "0 < (a2 - a0) * (a3 - a1)" using pa by simp
    with i2 have "(a2 - a0) * (a3 - a1) + (b2 - b0) * (b3 - b1) - w * h \<noteq> 0" by linarith
    then show ?thesis using False
      by (simp add: calculate_iou_def a b Let_def w_def h_def)
  qed
qed

text \<open>
  C4. The claim: for every pair of boxes with \<open>x1 \<le> x2\<close> and \<open>y1 \<le> y2\<close>, zero-area
  boxes included, \<open>calculate_iou\<close> returns a number in \<open>[0, 1]\<close> without raising. On
  two coincident zero-area boxes the overlap rectangle is not rejected by the guard, the
  union is \<open>0\<close>, and the division raises \<^verbatim>\<open>ZeroDivisionError\<close>.
\<close>

theorem calculate_iou_zero_area_raises:
  "well_formed (5, 5, 5, 5) \<and> calculate_iou (5, 5, 5, 5) (5, 5, 5, 5) = Inl ZeroDivisionError"
  by (simp add: calculate_iou_def well_formed_def)

text \<open>
  C8, as stated: \<open>calculate_iou A A\<close> is \<open>1.0\<close> for every box \<open>A\<close>. It is \<open>0.0\<close> on a
  box with \<open>x2 < x1\<close>, which the guard answers, and no value at all on a zero-area box.
\<close>

theorem calculate_iou_self_counterexample:
  "calculate_iou (10, 0, 0, 10) (10, 0, 0, 10) \<noteq> Inr 1 \<and>
   calculate_iou (5, 5, 5, 5) (5, 5, 5, 5) \<noteq> Inr 1"
  by (simp add: calculate_iou_def)

text \<open>
  C8, amended: \<open>calculate_iou\<close> is symmetric on every pair of boxes (the same number, or
  the same exception, in both orders), and \<open>calculate_iou A A\<close> is exactly \<open>1\<close> for every
  box \<open>A\<close> with \<open>x1 < x2\<close> and \<open>y1 < y2\<close>.
\<close>

theorem calculate_iou_symmetric_and_self:
  "calculate_iou a b = calculate_iou b a \<and>
   (positive_area a \<longrightarrow> calculate_iou a a = Inr 1)"
  using calculate_iou_commute calculate_iou_self by blast

theorem calculate_iou_symmetric_and_self_witness:
  "positive_area (0, 0, 10, 20) \<and>
   calculate_iou (0, 0, 10, 20) (5, 5, 15, 25) = calculate_iou (5, 5, 15, 25) (0, 0, 10, 20) \<and>
   calculate_iou (0, 0, 10, 20) (5, 5, 15, 25) = Inr (3 / 13) \<and>
   calculate_iou (0, 0, 10, 20) (0, 0, 10, 20) = Inr 1"
proof -
  have p: "positive_area (0, 0, 10, 20)" by (simp add: positive_area_def)
  have v: "calculate_iou (0, 0, 10, 20) (5, 5, 15, 25) = Inr (3 / 13)"
    by (simp add: calculate_iou_def)
  from calculate_iou_symmetric_and_self [of "(0, 0, 10, 20)" "(5, 5, 15, 25)"] p v
  show ?thesis by simp
qed

section \<open>Properties of the scores\<close>

lemma add_weights_raw_score:
  "add_weights weights items score = score + raw_score weights items"
  by (induction items arbitrary: score) (simp_all add: raw_score_def)

lemma scores_loop_lookup:
  "scores_loop weights ps assigned_ppe sc k =
     (if k \<in> pid ` set ps
      then Some (clamp (raw_score weights (items_of assigned_ppe k)) 0 100)
      else sc k)"
proof (induction ps arbitrary: sc)
  case Nil
  show ?case by simp
next
  case (Cons person rest)
  show ?case
    by (cases "assigned_ppe (pid person)")
       (auto simp: Cons.IH Let_def clamp_def items_of_def add_weights_raw_score raw_score_def)
qed

lemma calculate_ppe_scores_lookup:
  "calculate_ppe_scores weights ps assigned_ppe k =
     (if k \<in> pid ` set ps
      then Some (clamp (raw_score weights (items_of assigned_ppe k)) 0 100)
      else None)"
  by (simp add: calculate_ppe_scores_def scores_loop_lookup)

lemma raw_score_unknown:
  "weights (class_label u) = None \<Longrightarrow>
     raw_score weights (xs @ u # ys) = raw_score weights (xs @ ys)"
  by (simp add: raw_score_def)

text \<open>
  C3. For every list of persons, assignment and weight table, the score of each person
  of the list is the sum of the weights of the class labels of the person's items,
  clamped to \<open>[0, 100]\<close>; an item whose label is not in the table adds nothing and
  raises nothing; three items of weight 40 under one person make a raw sum of 120 and a
  score of exactly 100.
\<close>

theorem calculate_ppe_scores_clamped_sum:
  "(\<forall>p \<in> set ps.
      calculate_ppe_scores weights ps assigned_ppe (pid p) =
        Some (clamp (raw_score weights (items_of assigned_ppe (pid p))) 0 100)) \<and>
   (r \<in> set ps \<and> assigned_ppe (pid r) = Some (xs @ u # ys) \<and>
    weights (class_label u) = None \<longrightarrow>
      calculate_ppe_scores weights ps assigned_ppe (pid r) =
        Some (clamp (raw_score weights (xs @ ys)) 0 100)) \<and>
   (q \<in> set ps \<and> assigned_ppe (pid q) = Some [a, b, c] \<and>
    weights (class_label a) = Some 40 \<and> weights (class_label b) = Some 40 \<and>
    weights (class_label c) = Some 40 \<longrightarrow>
      raw_score weights (items_of assigned_ppe (pid q)) = 120 \<and>
      calculate_ppe_scores weights ps assigned_ppe (pid q) = Some 100)"
proof (intro conjI ballI impI)
  fix p assume "p \<in> set ps"
  then show "calculate_ppe_scores weights ps assigned_ppe (pid p) =
      Some (clamp (raw_score weights (items_of assigned_ppe (pid p))) 0 100)"
    by (simp add: calculate_ppe_scores_lookup)
next
  assume "r \<in> set ps \<and> assigned_ppe (pid r) = Some (xs @ u # ys) \<and>
    weights (class_label u) = None"
  then show "calculate_ppe_scores weights ps assigned_ppe (pid r) =
      Some (clamp (raw_score weights (xs @ ys)) 0 100)"
    by (simp add: calculate_ppe_scores_lookup items_of_def raw_score_unknown)
next
  assume h: "q \<in> set ps \<and> assigned_ppe (pid q) = Some [a, b, c] \<and>
    weights (class_label a) = Some 40 \<and> weights (class_label b) = Some 40 \<and>
    weights (class_label c) = Some 40"
  then show "raw_score weights (items_of assigned_ppe (pid q)) = 120"
    by (simp add: items_of_def raw_score_def)
  with h show "calculate_ppe_scores weights ps assigned_ppe (pid q) = Some 100"
    by (simp add: calculate_ppe_scores_lookup clamp_def)
qed

theorem calculate_ppe_scores_clamped_sum_witness:
  "calculate_ppe_scores PPE_WEIGHTS
     [with_id (detection_of ''Person'' (0, 0, 50, 100) 0.9) 1,
      with_id (detection_of ''Person'' (200, 0, 250, 100) 0.8) 2]
     [1 \<mapsto> [detection_of ''Hardhat'' (10, 0, 30, 20) 0.9,
             detection_of ''Safety Vest'' (5, 30, 45, 80) 0.9,
             detection_of ''Hardhat'' (12, 2, 32, 22) 0.7],
      2 \<mapsto> [detection_of ''Mask'' (215, 15, 235, 30) 0.6,
             detection_of ''Gloves'' (205, 50, 215, 60) 0.6]] 1 = Some 100 \<and>
   calculate_ppe_scores PPE_WEIGHTS
     [with_id (detection_of ''Person'' (0, 0, 50, 100) 0.9) 1,
      with_id (detection_of ''Person'' (200, 0, 250, 100) 0.8) 2]
     [1 \<mapsto> [detection_of ''Hardhat'' (10, 0, 30, 20) 0.9,
             detection_of ''Safety Vest'' (5, 30, 45, 80) 0.9,
             detection_of ''Hardhat'' (12, 2, 32, 22) 0.7],
      2 \<mapsto> [detection_of ''Mask'' (215, 15, 235, 30) 0.6,
             detection_of ''Gloves'' (205, 50, 215, 60) 0.6]] 2 = Some 20"
  (is "calculate_ppe_scores _ ?ps ?A 1 = _ \<and> _")
proof -
  let ?q = "with_id (detection_of ''Person'' (0, 0, 50, 100) 0.9) 1"
  let ?r = "with_id (detection_of ''Person'' (200, 0, 250, 100) 0.8) 2"
  let ?a = "detection_of ''Hardhat'' (10, 0, 30, 20) 0.9"
  let ?b = "detection_of ''Safety Vest'' (5, 30, 45, 80) 0.9"
  let ?c = "detection_of ''Hardhat'' (12, 2, 32, 22) 0.7"
  let ?m = "detection_of ''Mask'' (215, 15, 235, 30) 0.6"
  let ?u = "detection_of ''Gloves'' (205, 50, 215, 60) 0.6"
  have ids: "pid ?q = 1" "pid ?r = 2" by simp_all
  have hq: "?q \<in> set ?ps \<and> ?A (pid ?q) = Some [?a, ?b, ?c] \<and>
      PPE_WEIGHTS (class_label ?a) = Some 40 \<and> PPE_WEIGHTS (class_label ?b) = Some 40 \<and>
      PPE_WEIGHTS (class_label ?c) = Some 40"
    by (simp add: PPE_WEIGHTS_def)
  have hr: "?r \<in> set ?ps \<and> ?A (pid ?r) = Some ([?m] @ ?u # []) \<and>
      PPE_WEIGHTS (class_label ?u) = None"
    by (simp add: PPE_WEIGHTS_def)
  have m: "clamp (raw_score PPE_WEIGHTS ([?m] @ [])) 0 100 = 20"
    by (simp add: raw_score_def clamp_def PPE_WEIGHTS_def)
  from calculate_ppe_scores_clamped_sum
    [where ps = ?ps and weights = PPE_WEIGHTS and assigned_ppe = ?A
       and q = ?q and a = ?a and b = ?b and c = ?c
       and r = ?r and xs = "[?m]" and u = ?u and ys = "[]"]
  have "calculate_ppe_scores PPE_WEIGHTS ?ps ?A (pid ?r) =
          Some (clamp (raw_score PPE_WEIGHTS ([?m] @ [])) 0 100)"
    and "calculate_ppe_scores PPE_WEIGHTS ?ps ?A (pid ?q) = Some 100"
    using hq hr by blast+
  then show ?thesis unfolding ids m by simp
qed

text \<open>
  C10. The keys of the score map are exactly the IDs of the persons of the input list,
  and a person of the list with no assigned items has the entry \<open>0\<close>.
\<close>

theorem calculate_ppe_scores_keys:
  "dom (calculate_ppe_scores weights ps assigned_ppe) = pid ` set ps \<and>
   (\<forall>p \<in> set ps. items_of assigned_ppe (pid p) = [] \<longrightarrow>
      calculate_ppe_scores weights ps assigned_ppe (pid p) = Some 0)"
  by (auto simp: calculate_ppe_scores_lookup dom_def raw_score_def clamp_def split: if_splits)

theorem calculate_ppe_scores_keys_witness:
  "dom (calculate_ppe_scores PPE_WEIGHTS
     [with_id (detection_of ''Person'' (0, 0, 50, 100) 0.9) 1,
      with_id (detection_of ''Person'' (200, 0, 250, 100) 0.8) 2]
     [1 \<mapsto> [detection_of ''Hardhat'' (10, 0, 30, 20) 0.9]]) = {1, 2} \<and>
   calculate_ppe_scores PPE_WEIGHTS
     [with_id (detection_of ''Person'' (0, 0, 50, 100) 0.9) 1,
      with_id (detection_of ''Person'' (200, 0, 250, 100) 0.8) 2]
     [1 \<mapsto> [detection_of ''Hardhat'' (10, 0, 30, 20) 0.9]] 2 = Some 0"
  (is "dom (calculate_ppe_scores _ ?ps ?A) = _ \<and> _")
proof -
  let ?q = "with_id (detection_of ''Person'' (0, 0, 50, 100) 0.9) 1"
  let ?r = "with_id (detection_of ''Person'' (200, 0, 250, 100) 0.8) 2"
  have ids: "pid ?q = 1" "pid ?r = 2" by simp_all
  have r: "?r \<in> set ?ps" by simp
  have e: "items_of ?A (pid ?r) = []" by (simp add: items_of_def)
  have s: "pid ` set ?ps = {1, 2}" by simp
  from calculate_ppe_scores_keys
    [where ps = ?ps and weights = PPE_WEIGHTS and assigned_ppe = ?A]
  have "dom (calculate_ppe_scores PPE_WEIGHTS ?ps ?A) = pid ` set ?ps"
    and "calculate_ppe_scores PPE_WEIGHTS ?ps ?A (pid ?r) = Some 0"
    using r e by blast+
  then show ?thesis unfolding ids s by simp
qed

section \<open>Properties of the frame pipeline\<close>

lemma track_one_untracked: "untracked (fst (track_one now s person)) = person"
  by (cases "box person")
     (auto simp: track_one_def Let_def split: option.splits prod.splits)

lemma track_loop_untracked:
  "map untracked (fst (track_loop clock i s ps)) = ps"
proof (induction ps arbitrary: i s)
  case Nil
  show ?case by simp
next
  case (Cons person rest)
  obtain p s' where t: "track_one (clock i) s person = (p, s')"
    by (cases "track_one (clock i) s person")
  obtain out s'' where l: "track_loop clock (Suc i) s' rest = (out, s'')"
    by (cases "track_loop clock (Suc i) s' rest")
  from track_one_untracked[of "clock i" s person] t have "untracked p = person" by simp
  moreover from Cons.IH[of "Suc i" s'] l have "map untracked out = rest" by simp
  ultimately show ?case by (simp add: t l)
qed

lemma track_persons_untracked:
  "map untracked (fst (track_persons clock s ps)) = ps"
  using track_loop_untracked[of clock 0 s ps]
  by (cases "track_loop clock 0 s ps") (simp add: track_persons_def Let_def)

text \<open>
  C9, as stated: every detection whose class label is not \<open>Person\<close> is in the equipment
  list of the frame's results. A detection labelled \<open>Safety Cone\<close> is not a person and
  not a key of \<open>PPE_WEIGHTS\<close>; the filter \<^verbatim>\<open>d['class'] in PPE_WEIGHTS\<close> drops it.
\<close>

theorem process_frame_equipment_counterexample:
  "class_label (detection_of ''Safety Cone'' (60, 60, 80, 90) 0.8) \<noteq> ''Person'' \<and>
   fst (process_frame PPE_WEIGHTS IOU_THRESHOLD (\<lambda>i. 10) init_detector
     [detection_of ''Person'' (0, 0, 50, 100) 0.9,
      detection_of ''Safety Cone'' (60, 60, 80, 90) 0.8,
      detection_of ''Hardhat'' (10, 0, 30, 20) 0.7]) =
     Inr \<lparr>result_persons = [with_id (detection_of ''Person'' (0, 0, 50, 100) 0.9) 1],
          result_ppe_items = [detection_of ''Hardhat'' (10, 0, 30, 20) 0.7],
          result_scores = [1 \<mapsto> 40]\<rparr> \<and>
   detection_of ''Safety Cone'' (60, 60, 80, 90) 0.8 \<notin>
     set [detection_of ''Hardhat'' (10, 0, 30, 20) 0.7]"
  by (simp add: process_frame_def PPE_WEIGHTS_def IOU_THRESHOLD_def init_detector_def
      track_persons_def track_one_def Let_def purge_def assign_ppe_to_persons_def
      sorted_reverse_def calculate_iou_def append_item_def calculate_ppe_scores_def)
     (simp add: detection_of_def)

text \<open>
  C9, amended: with a weight table of which \<open>Person\<close> is not a key, as \<open>PPE_WEIGHTS\<close>
  is, whenever \<open>process_frame\<close> returns a result, the persons of the result are
  the detections labelled \<open>Person\<close>, in input order and unchanged but for their IDs; the
  equipment list of the result is the list of the detections whose label is a key of the
  weight table, in input order and unchanged; and that list is the one the assigner was
  given, the scores being those of its assignment.
\<close>

theorem process_frame_split:
  assumes "fst (process_frame weights thr clock s detections) = Inr res"
    and "weights ''Person'' = None"
  shows "result_ppe_items res = filter (\<lambda>d. class_label d \<in> dom weights) detections \<and>
         map untracked (result_persons res) =
           filter (\<lambda>d. class_label d = ''Person'') detections \<and>
         (\<exists>assigned_ppe.
            assign_ppe_to_persons thr (result_persons res) (result_ppe_items res) =
              Inr assigned_ppe \<and>
            result_scores res =
              calculate_ppe_scores weights (result_persons res) assigned_ppe)"
proof -
  let ?ps = "filter (\<lambda>d. class_label d = ''Person'') detections"
  let ?is = "filter (\<lambda>d. weights (class_label d) \<noteq> None) detections"
  obtain tracked s' where t: "track_persons clock s ?ps = (tracked, s')"
    by (cases "track_persons clock s ?ps")
  from track_persons_untracked[of clock s ?ps] t have u: "map untracked tracked = ?ps"
    by simp
  have d: "?is = filter (\<lambda>d. class_label d \<in> dom weights) detections"
    by (simp add: dom_def)
  show ?thesis
  proof (cases "assign_ppe_to_persons thr tracked ?is")
    case (Inl e)
    with assms(1) t show ?thesis by (simp add: process_frame_def Let_def)
  next
    case (Inr a)
    with assms(1) t have "res = \<lparr>result_persons = tracked, result_ppe_items = ?is,
        result_scores = calculate_ppe_scores weights tracked a\<rparr>"
      by (simp add: process_frame_def Let_def)
    with Inr u d show ?thesis by simp
  qed
qed

theorem process_frame_split_witness:
  "fst (process_frame PPE_WEIGHTS IOU_THRESHOLD (\<lambda>i. 10) init_detector
     [detection_of ''Person'' (0, 0, 50, 100) 0.9,
      detection_of ''Mask'' (15, 20, 30, 30) 0.8,
      detection_of ''Hardhat'' (10, 0, 30, 20) 0.7]) =
     Inr \<lparr>result_persons = [with_id (detection_of ''Person'' (0, 0, 50, 100) 0.9) 1],
          result_ppe_items = [detection_of ''Mask'' (15, 20, 30, 30) 0.8,
                              detection_of ''Hardhat'' (10, 0, 30, 20) 0.7],
          result_scores = [1 \<mapsto> 60]\<rparr> \<and>
   [detection_of ''Mask'' (15, 20, 30, 30) 0.8, detection_of ''Hardhat'' (10, 0, 30, 20) 0.7] =
     filter (\<lambda>d. class_label d \<in> dom PPE_WEIGHTS)
       [detection_of ''Person'' (0, 0, 50, 100) 0.9,
        detection_of ''Mask'' (15, 20, 30, 30) 0.8,
        detection_of ''Hardhat'' (10, 0, 30, 20) 0.7]"
  (is "fst (process_frame _ _ ?clock _ ?ds) = Inr ?res \<and> _")
proof -
  have run: "fst (process_frame PPE_WEIGHTS IOU_THRESHOLD ?clock init_detector ?ds) = Inr ?res"
    by (simp add: process_frame_def PPE_WEIGHTS_def IOU_THRESHOLD_def init_detector_def
        track_persons_def track_one_def Let_def purge_def assign_ppe_to_persons_def
        sorted_reverse_def calculate_iou_def append_item_def calculate_ppe_scores_def)
  have nop: "PPE_WEIGHTS ''Person'' = None" by (simp add: PPE_WEIGHTS_def)
  from process_frame_split [OF run nop]
  have "result_ppe_items ?res = filter (\<lambda>d. class_label d \<in> dom PPE_WEIGHTS) ?ds"
    by blast
  with run show ?thesis by simp
qed

section \<open>Properties of the assignment\<close>

lemma best_person_loop_defined:
  assumes "\<forall>p \<in> set ps. \<exists>r. calculate_iou (box p) (box ppe) = Inr r"
  shows "\<exists>res. best_person_loop thr ps ppe b bp = Inr res"
  using assms
proof (induction ps arbitrary: b bp)
  case Nil
  show ?case by simp
next
  case (Cons person rest)
  then obtain c where c: "calculate_iou (box person) (box ppe) = Inr c" by auto
  from Cons.prems have r: "\<forall>p \<in> set rest. \<exists>r. calculate_iou (box p) (box ppe) = Inr r" by simp
  show ?case using Cons.IH[OF r] by (simp add: c)
qed

lemma best_person_loop_result:
  assumes "best_person_loop thr ps ppe b bp = Inr res"
  shows "(\<forall>p \<in> set ps. \<exists>r. calculate_iou (box p) (box ppe) = Inr r) \<and>
         ((res = bp \<and>
           (\<forall>p \<in> set ps. \<forall>r. calculate_iou (box p) (box ppe) = Inr r \<longrightarrow> \<not> (b < r \<and> thr \<le> r))) \<or>
          (\<exists>xs p ys r. ps = xs @ p # ys \<and> res = Some p \<and>
             calculate_iou (box p) (box ppe) = Inr r \<and> b < r \<and> thr \<le> r \<and>
             (\<forall>q \<in> set xs. \<exists>r'. calculate_iou (box q) (box ppe) = Inr r' \<and> r' < r) \<and>
             (\<forall>q \<in> set ys. \<exists>r'. calculate_iou (box q) (box ppe) = Inr r' \<and> r' \<le> r)))"
  using assms
proof (induction ps arbitrary: b bp)
  case Nil
  then show ?case by simp
next
  case (Cons person rest)
  from Cons.prems obtain c where c: "calculate_iou (box person) (box ppe) = Inr c"
    by (cases "calculate_iou (box person) (box ppe)") auto
  show ?case
  proof (cases "b < c \<and> thr \<le> c")
    case True
    with Cons.prems c have run: "best_person_loop thr rest ppe c (Some person) = Inr res" by simp
    from Cons.IH[OF run] have
      d: "\<forall>p \<in> set rest. \<exists>r. calculate_iou (box p) (box ppe) = Inr r" and
      alt: "(res = Some person \<and>
           (\<forall>p \<in> set rest. \<forall>r. calculate_iou (box p) (box ppe) = Inr r \<longrightarrow> \<not> (c < r \<and> thr \<le> r))) \<or>
          (\<exists>xs p ys r. rest = xs @ p # ys \<and> res = Some p \<and>
             calculate_iou (box p) (box ppe) = Inr r \<and> c < r \<and> thr \<le> r \<and>
             (\<forall>q \<in> set xs. \<exists>r'. calculate_iou (box q) (box ppe) = Inr r' \<and> r' < r) \<and>
             (\<forall>q \<in> set ys. \<exists>r'. calculate_iou (box q) (box ppe) = Inr r' \<and> r' \<le> r))"
      by blast+
    have all: "\<forall>p \<in> set (person # rest). \<exists>r. calculate_iou (box p) (box ppe) = Inr r"
      using c d by simp
    from alt show ?thesis
    proof
      assume h: "res = Some person \<and>
           (\<forall>p \<in> set rest. \<forall>r. calculate_iou (box p) (box ppe) = Inr r \<longrightarrow> \<not> (c < r \<and> thr \<le> r))"
      have "\<forall>q \<in> set rest. \<exists>r'. calculate_iou (box q) (box ppe) = Inr r' \<and> r' \<le> c"
      proof
        fix q assume q: "q \<in> set rest"
        with d obtain r' where r': "calculate_iou (box q) (box ppe) = Inr r'" by blast
        with h q have "\<not> (c < r' \<and> thr \<le> r')" by blast
        with True have "r' \<le> c" by linarith
        with r' show "\<exists>r'. calculate_iou (box q) (box ppe) = Inr r' \<and> r' \<le> c" by blast
      qed
      with h c True have "person # rest = [] @ person # rest \<and> res = Some person \<and>
             calculate_iou (box person) (box ppe) = Inr c \<and> b < c \<and> thr \<le> c \<and>
             (\<forall>q \<in> set []. \<exists>r'. calculate_iou (box q) (box ppe) = Inr r' \<and> r' < c) \<and>
             (\<forall>q \<in> set rest. \<exists>r'. calculate_iou (box q) (box ppe) = Inr r' \<and> r' \<le> c)"
        by simp
      then show ?thesis using all by blast
    next
      assume "\<exists>xs p ys r. rest = xs @ p # ys \<and> res = Some p \<and>
             calculate_iou (box p) (box ppe) = Inr r \<and> c < r \<and> thr \<le> r \<and>
             (\<forall>q \<in> set xs. \<exists>r'. calculate_iou (box q) (box ppe) = Inr r' \<and> r' < r) \<and>
             (\<forall>q \<in> set ys. \<exists>r'. calculate_iou (box q) (box ppe) = Inr r' \<and> r' \<le> r)"
      then obtain xs p ys r where h: "rest = xs @ p # ys" "res = Some p"
             "calculate_iou (box p) (box ppe) = Inr r" "c < r" "thr \<le> r"
             "\<forall>q \<in> set xs. \<exists>r'. calculate_iou (box q) (box ppe) = Inr r' \<and> r' < r"
             "\<forall>q \<in> set ys. \<exists>r'. calculate_iou (box q) (box ppe) = Inr r' \<and> r' \<le> r"
        by blast
      from h True have "b < r" by linarith
      with h c have "person # rest = (person # xs) @ p # ys \<and> res = Some p \<and>
             calculate_iou (box p) (box ppe) = Inr r \<and> b < r \<and> thr \<le> r \<and>
             (\<forall>q \<in> set (person # xs). \<exists>r'. calculate_iou (box q) (box ppe) = Inr r' \<and> r' < r) \<and>
             (\<forall>q \<in> set ys. \<exists>r'. calculate_iou (box q) (box ppe) = Inr r' \<and> r' \<le> r)"
        by simp
      then show ?thesis using all by blast
    qed
  next
    case False
    with Cons.prems c have run: "best_person_loop thr rest ppe b bp = Inr res" by auto
    from Cons.IH[OF run] have
      d: "\<forall>p \<in> set rest. \<exists>r. calculate_iou (box p) (box ppe) = Inr r" and
      alt: "(res = bp \<and>
           (\<forall>p \<in> set rest. \<forall>r. calculate_iou (box p) (box ppe) = Inr r \<longrightarrow> \<not> (b < r \<and> thr \<le> r))) \<or>
          (\<exists>xs p ys r. rest = xs @ p # ys \<and> res = Some p \<and>
             calculate_iou (box p) (box ppe) = Inr r \<and> b < r \<and> thr \<le> r \<and>
             (\<forall>q \<in> set xs. \<exists>r'. calculate_iou (box q) (box ppe) = Inr r' \<and> r' < r) \<and>
             (\<forall>q \<in> set ys. \<exists>r'. calculate_iou (box q) (box ppe) = Inr r' \<and> r' \<le> r))"
      by blast+
    have all: "\<forall>p \<in> set (person # rest). \<exists>r. calculate_iou (box p) (box ppe) = Inr r"
      using c d by simp
    from alt show ?thesis
    proof
      assume h: "res = bp \<and>
           (\<forall>p \<in> set rest. \<forall>r. calculate_iou (box p) (box ppe) = Inr r \<longrightarrow> \<not> (b < r \<and> thr \<le> r))"
      with c False have "res = bp \<and>
           (\<forall>p \<in> set (person # rest). \<forall>r. calculate_iou (box p) (box ppe) = Inr r \<longrightarrow> \<not> (b < r \<and> thr \<le> r))"
        by auto
      then show ?thesis using all by blast
    next
      assume "\<exists>xs p ys r. rest = xs @ p # ys \<and> res = Some p \<and>
             calculate_iou (box p) (box ppe) = Inr r \<and> b < r \<and> thr \<le> r \<and>
             (\<forall>q \<in> set xs. \<exists>r'. calculate_iou (box q) (box ppe) = Inr r' \<and> r' < r) \<and>
             (\<forall>q \<in> set ys. \<exists>r'. calculate_iou (box q) (box ppe) = Inr r' \<and> r' \<le> r)"
      then obtain xs p ys r where h: "rest = xs @ p # ys" "res = Some p"
             "calculate_iou (box p) (box ppe) = Inr r" "b < r" "thr \<le> r"
             "\<forall>q \<in> set xs. \<exists>r'. calculate_iou (box q) (box ppe) = Inr r' \<and> r' < r"
             "\<forall>q \<in> set ys. \<exists>r'. calculate_iou (box q) (box ppe) = Inr r' \<and> r' \<le> r"
        by blast
      from h False have "c < r" by linarith
      with h c have "person # rest = (person # xs) @ p # ys \<and> res = Some p \<and>
             calculate_iou (box p) (box ppe) = Inr r \<and> b < r \<and> thr \<le> r \<and>
             (\<forall>q \<in> set (person # xs). \<exists>r'. calculate_iou (box q) (box ppe) = Inr r' \<and> r' < r) \<and>
             (\<forall>q \<in> set ys. \<exists>r'. calculate_iou (box q) (box ppe) = Inr r' \<and> r' \<le> r)"
        by simp
      then show ?thesis using all by blast
    qed
  qed
qed

lemma selects_unique:
  assumes "selects thr ps ppe p" and "selects thr ps ppe p'"
  shows "p = p'"
proof -
  from assms(1) obtain xs ys r where a: "ps = xs @ p # ys"
      "calculate_iou (box p) (box ppe) = Inr r"
      "\<forall>q \<in> set xs. \<exists>r'. calculate_iou (box q) (box ppe) = Inr r' \<and> r' < r"
      "\<forall>q \<in> set ys. \<exists>r'. calculate_iou (box q) (box ppe) = Inr r' \<and> r' \<le> r"
    unfolding selects_def by blast
  from assms(2) obtain xs' ys' r' where b: "ps = xs' @ p' # ys'"
      "calculate_iou (box p') (box ppe) = Inr r'"
      "\<forall>q \<in> set xs'. \<exists>t. calculate_iou (box q) (box ppe) = Inr t \<and> t < r'"
      "\<forall>q \<in> set ys'. \<exists>t. calculate_iou (box q) (box ppe) = Inr t \<and> t \<le> r'"
    unfolding selects_def by blast
  from a(1) b(1) have e: "xs @ p # ys = xs' @ p' # ys'" by simp
  then consider us where "xs = xs' @ p' # us" | "xs = xs'" "p = p'" | us where "xs' = xs @ p # us"
    by (auto simp: append_eq_append_conv2 append_eq_Cons_conv Cons_eq_append_conv)
  then show ?thesis
  proof cases
    case 1
    then have "p' \<in> set xs" by simp
    with a(3) b(2) have lt: "r' < r" by fastforce
    from 1 e have "ys' = us @ p # ys" by simp
    then have "p \<in> set ys'" by simp
    with b(4) a(2) have "r \<le> r'" by fastforce
    with lt show ?thesis by simp
  next
    case 2
    then show ?thesis by simp
  next
    case 3
    then have "p \<in> set xs'" by simp
    with b(3) a(2) have lt: "r < r'" by fastforce
    from 3 e have "ys = us @ p' # ys'" by simp
    then have "p' \<in> set ys" by simp
    with a(4) b(2) have "r' \<le> r" by fastforce
    with lt show ?thesis by simp
  qed
qed


lemma best_person_loop_Some:
  assumes "best_person_loop thr ps ppe 0 None = Inr (Some p)"
  shows "selects thr ps ppe p"
  using best_person_loop_result[OF assms] unfolding selects_def by blast

lemma best_person_loop_None:
  assumes "best_person_loop thr ps ppe 0 None = Inr None"
  shows "\<not> selects thr ps ppe p"
proof
  assume "selects thr ps ppe p"
  then obtain r where "p \<in> set ps" "calculate_iou (box p) (box ppe) = Inr r" "0 < r" "thr \<le> r"
    unfolding selects_def by auto
  moreover from best_person_loop_result[OF assms]
  have "\<forall>p \<in> set ps. \<forall>r. calculate_iou (box p) (box ppe) = Inr r \<longrightarrow> \<not> (0 < r \<and> thr \<le> r)"
    by blast
  ultimately show False by blast
qed

lemma items_of_append_item:
  "items_of (append_item A k ppe) j = (if j = k then items_of A k @ [ppe] else items_of A j)"
  by (simp add: items_of_def append_item_def)

lemma dom_append_item: "dom (append_item A k ppe) = insert k (dom A)"
  by (simp add: append_item_def)

lemma assign_loop_spec:
  assumes "ious_defined ps its"
  shows "\<exists>A'. assign_loop thr ps its A = Inr A' \<and>
           (\<forall>k. items_of A' k =
                  items_of A k @ filter (\<lambda>i. \<exists>p. selects thr ps i p \<and> pid p = k) its) \<and>
           (\<forall>k. k \<in> dom A' \<longleftrightarrow>
                  k \<in> dom A \<or> filter (\<lambda>i. \<exists>p. selects thr ps i p \<and> pid p = k) its \<noteq> [])"
  using assms
proof (induction its arbitrary: A)
  case Nil
  show ?case by simp
next
  case (Cons ppe rest)
  from Cons.prems have here: "\<forall>p \<in> set ps. \<exists>r. calculate_iou (box p) (box ppe) = Inr r"
    and later: "ious_defined ps rest"
    by (simp_all add: ious_defined_def)
  from best_person_loop_defined[OF here] obtain res
    where res: "best_person_loop thr ps ppe 0 None = Inr res" by blast
  show ?case
  proof (cases res)
    case None
    with res have no: "\<And>p. \<not> selects thr ps ppe p" using best_person_loop_None by blast
    from Cons.IH[OF later, of A] obtain A' where
      "assign_loop thr ps rest A = Inr A'"
      "\<forall>k. items_of A' k =
                  items_of A k @ filter (\<lambda>i. \<exists>p. selects thr ps i p \<and> pid p = k) rest"
      "\<forall>k. k \<in> dom A' \<longleftrightarrow>
                  k \<in> dom A \<or> filter (\<lambda>i. \<exists>p. selects thr ps i p \<and> pid p = k) rest \<noteq> []"
      by blast
    with res None no show ?thesis by simp
  next
    case (Some bp)
    with res have sel: "selects thr ps ppe bp" using best_person_loop_Some by blast
    have own: "\<And>k. (\<exists>p. selects thr ps ppe p \<and> pid p = k) \<longleftrightarrow> k = pid bp"
      using sel selects_unique by blast
    from Cons.IH[OF later, of "append_item A (pid bp) ppe"] obtain A' where
      run: "assign_loop thr ps rest (append_item A (pid bp) ppe) = Inr A'" and
      it: "\<forall>k. items_of A' k = items_of (append_item A (pid bp) ppe) k @
              filter (\<lambda>i. \<exists>p. selects thr ps i p \<and> pid p = k) rest" and
      dm: "\<forall>k. k \<in> dom A' \<longleftrightarrow> k \<in> dom (append_item A (pid bp) ppe) \<or>
              filter (\<lambda>i. \<exists>p. selects thr ps i p \<and> pid p = k) rest \<noteq> []"
      by blast
    have "assign_loop thr ps (ppe # rest) A = Inr A'" using res Some run by simp
    moreover have "\<forall>k. items_of A' k =
        items_of A k @ filter (\<lambda>i. \<exists>p. selects thr ps i p \<and> pid p = k) (ppe # rest)"
      using it own by (simp add: items_of_append_item)
    moreover have "\<forall>k. k \<in> dom A' \<longleftrightarrow>
        k \<in> dom A \<or> filter (\<lambda>i. \<exists>p. selects thr ps i p \<and> pid p = k) (ppe # rest) \<noteq> []"
      using dm own by (auto simp: dom_append_item)
    ultimately show ?thesis by blast
  qed
qed

lemma assign_loop_Inr_defined:
  assumes "assign_loop thr ps its A = Inr A'"
  shows "ious_defined ps its"
  using assms
proof (induction its arbitrary: A)
  case Nil
  show ?case by (simp add: ious_defined_def)
next
  case (Cons ppe rest)
  from Cons.prems obtain res where res: "best_person_loop thr ps ppe 0 None = Inr res"
    by (cases "best_person_loop thr ps ppe 0 None") auto
  from best_person_loop_result[OF res]
  have here: "\<forall>p \<in> set ps. \<exists>r. calculate_iou (box p) (box ppe) = Inr r" by blast
  from Cons.prems res obtain A1 where "assign_loop thr ps rest A1 = Inr A'"
    by (cases res) auto
  from Cons.IH[OF this] have "ious_defined ps rest" .
  with here show ?case by (simp add: ious_defined_def)
qed

lemma mset_sorted_reverse: "mset (sorted_reverse key xs) = mset xs"
  by (simp add: sorted_reverse_def)

lemma set_sorted_reverse: "set (sorted_reverse key xs) = set xs"
  by (simp add: sorted_reverse_def)

lemma sorted_reverse_descending:
  "sorted_wrt (\<lambda>a b. key a \<ge> key b) (sorted_reverse key xs)"
proof -
  have "sorted (map key (sort_key key (rev xs)))" by simp
  then have "sorted_wrt (\<lambda>a b. key a \<le> key b) (sort_key key (rev xs))"
    by (simp add: sorted_wrt_map)
  then show ?thesis
    by (simp add: sorted_reverse_def sorted_wrt_rev)
qed

lemma sorted_reverse_stable:
  "filter (\<lambda>x. key x = c) (sorted_reverse key xs) = filter (\<lambda>x. key x = c) xs"
proof -
  have "filter (\<lambda>x. key x = c) (sort_key key (rev xs)) = filter (\<lambda>x. key x = c) (rev xs)"
    by (rule sort_key_stable)
  then show ?thesis
    by (simp add: sorted_reverse_def rev_filter [symmetric])
qed

lemma assign_ppe_to_persons_spec:
  assumes "ious_defined ps items"
  shows "\<exists>A. assign_ppe_to_persons thr ps items = Inr A \<and>
           (\<forall>k. items_of A k =
                  filter (\<lambda>i. \<exists>p. selects thr ps i p \<and> pid p = k) (sorted_reverse box_area items)) \<and>
           (\<forall>k. k \<in> dom A \<longleftrightarrow> items_of A k \<noteq> [])"
proof -
  have "ious_defined ps (sorted_reverse box_area items)"
    using assms by (simp add: ious_defined_def set_sorted_reverse)
  from assign_loop_spec[OF this, of thr Map.empty]
  show ?thesis
    by (auto simp: assign_ppe_to_persons_def items_of_def)
qed

lemma assign_ppe_to_persons_Inr_defined:
  assumes "assign_ppe_to_persons thr ps items = Inr A"
  shows "ious_defined ps items"
  using assign_loop_Inr_defined[of thr ps "sorted_reverse box_area items" Map.empty A] assms
  by (simp add: assign_ppe_to_persons_def ious_defined_def set_sorted_reverse)


lemma selects_exists:
  assumes "\<forall>p \<in> set ps. \<exists>r. calculate_iou (box p) (box ppe) = Inr r"
    and "q \<in> set ps" and "calculate_iou (box q) (box ppe) = Inr r" and "0 < r" and "thr \<le> r"
  shows "\<exists>p. selects thr ps ppe p"
proof -
  from best_person_loop_defined[OF assms(1)] obtain res
    where res: "best_person_loop thr ps ppe 0 None = Inr res" by blast
  show ?thesis
  proof (cases res)
    case None
    with best_person_loop_result[OF res]
    have "\<forall>p \<in> set ps. \<forall>r. calculate_iou (box p) (box ppe) = Inr r \<longrightarrow> \<not> (0 < r \<and> thr \<le> r)"
      by blast
    with assms show ?thesis by blast
  next
    case (Some p)
    with res show ?thesis using best_person_loop_Some by blast
  qed
qed

lemma selects_positive:
  assumes "selects thr ps ppe p"
  shows "p \<in> set ps \<and> (\<exists>r. calculate_iou (box p) (box ppe) = Inr r \<and> 0 < r \<and> thr \<le> r)"
  using assms unfolding selects_def by auto

text \<open>
  C1, amended: whenever no IoU of a person with an item divides by zero,
  \<open>assign_ppe_to_persons\<close> returns an assignment; it goes through the items in
  descending order of bounding-box area (a permutation of the input in which items of
  equal area keep their input order); each item goes to
  the person that \<open>selects\<close> describes, the first person of the list with the greatest
  IoU against the item, provided that IoU is greater than \<open>0\<close> and at least the
  threshold, and is discarded when there is none; so the items under a person ID are
  those of the sorted list that the person wins, a person ID without items is not a key,
  no item is under two person IDs, and no item is there more often than in the input.
\<close>

theorem assign_ppe_to_persons_greedy:
  assumes "ious_defined ps items"
  shows "\<exists>A. assign_ppe_to_persons thr ps items = Inr A \<and>
      sorted_wrt (\<lambda>a b. box_area a \<ge> box_area b) (sorted_reverse box_area items) \<and>
      mset (sorted_reverse box_area items) = mset items \<and>
      (\<forall>c. filter (\<lambda>i. box_area i = c) (sorted_reverse box_area items) =
             filter (\<lambda>i. box_area i = c) items) \<and>
      (\<forall>k. items_of A k =
             filter (\<lambda>i. \<exists>p. selects thr ps i p \<and> pid p = k) (sorted_reverse box_area items)) \<and>
      (\<forall>k. k \<in> dom A \<longleftrightarrow> items_of A k \<noteq> []) \<and>
      (\<forall>k k' i. i \<in> set (items_of A k) \<and> i \<in> set (items_of A k') \<longrightarrow> k = k') \<and>
      (\<forall>k i. count (mset (items_of A k)) i \<le> count (mset items) i)"
proof -
  let ?its = "sorted_reverse box_area items"
  from assign_ppe_to_persons_spec[OF assms, of thr] obtain A where
    run: "assign_ppe_to_persons thr ps items = Inr A" and
    it: "\<forall>k. items_of A k = filter (\<lambda>i. \<exists>p. selects thr ps i p \<and> pid p = k) ?its" and
    dm: "\<forall>k. k \<in> dom A \<longleftrightarrow> items_of A k \<noteq> []"
    by blast
  have one: "\<forall>k k' i. i \<in> set (items_of A k) \<and> i \<in> set (items_of A k') \<longrightarrow> k = k'"
  proof (intro allI impI)
    fix k k' i
    assume "i \<in> set (items_of A k) \<and> i \<in> set (items_of A k')"
    with it obtain p p' where "selects thr ps i p" "pid p = k" "selects thr ps i p'" "pid p' = k'"
      by auto
    with selects_unique show "k = k'" by blast
  qed
  have cnt: "\<forall>k i. count (mset (items_of A k)) i \<le> count (mset items) i"
  proof (intro allI)
    fix k i
    have "mset (items_of A k) \<subseteq># mset ?its"
      using it by (simp add: multiset_filter_subset)
    then have "count (mset (items_of A k)) i \<le> count (mset ?its) i"
      by (rule mset_subset_eq_count)
    then show "count (mset (items_of A k)) i \<le> count (mset items) i"
      by (simp add: mset_sorted_reverse)
  qed
  have st: "\<forall>c. filter (\<lambda>i. box_area i = c) ?its = filter (\<lambda>i. box_area i = c) items"
    by (simp add: sorted_reverse_stable)
  from run it dm one cnt st sorted_reverse_descending[of box_area items]
    mset_sorted_reverse[of box_area items]
  show ?thesis by blast
qed

text \<open>
  C6, as stated: with the threshold \<open>0\<close> there is an input on which an item whose IoU
  with every person is exactly \<open>0\<close> is still assigned to some person. There is none.
\<close>

theorem assign_zero_overlap_counterexample:
  "\<not> (\<exists>ps items A ppe k.
        assign_ppe_to_persons IOU_THRESHOLD ps items = Inr A \<and> ppe \<in> set items \<and>
        (\<forall>p \<in> set ps. calculate_iou (box p) (box ppe) = Inr 0) \<and>
        ppe \<in> set (items_of A k))"
proof
  assume "\<exists>ps items A ppe k.
        assign_ppe_to_persons IOU_THRESHOLD ps items = Inr A \<and> ppe \<in> set items \<and>
        (\<forall>p \<in> set ps. calculate_iou (box p) (box ppe) = Inr 0) \<and>
        ppe \<in> set (items_of A k)"
  then obtain ps items A ppe k where
    run: "assign_ppe_to_persons IOU_THRESHOLD ps items = Inr A" and
    zero: "\<forall>p \<in> set ps. calculate_iou (box p) (box ppe) = Inr 0" and
    mem: "ppe \<in> set (items_of A k)"
    by blast
  from assign_ppe_to_persons_Inr_defined[OF run] have d: "ious_defined ps items" .
  from assign_ppe_to_persons_spec[OF d, of IOU_THRESHOLD] run
  have "items_of A k = filter (\<lambda>i. \<exists>p. selects IOU_THRESHOLD ps i p \<and> pid p = k)
      (sorted_reverse box_area items)"
    by auto
  with mem obtain p where "selects IOU_THRESHOLD ps ppe p" by auto
  from selects_positive[OF this] obtain r where
    "p \<in> set ps" "calculate_iou (box p) (box ppe) = Inr r" "0 < r" by blast
  with zero show False by auto
qed

text \<open>
  C6, amended: with \<open>IOU_THRESHOLD = 0\<close>, whenever \<open>assign_ppe_to_persons\<close> returns, an
  item of the input is assigned to some person exactly when its IoU with some person is
  greater than \<open>0\<close>, and an assigned item is under the ID of the first person with the
  greatest IoU; an item that overlaps nobody is discarded.
\<close>

theorem assign_zero_threshold:
  assumes "assign_ppe_to_persons IOU_THRESHOLD ps items = Inr A"
  shows "(\<forall>i \<in> set items.
            (\<exists>k. i \<in> set (items_of A k)) \<longleftrightarrow>
            (\<exists>p \<in> set ps. \<exists>r. calculate_iou (box p) (box i) = Inr r \<and> 0 < r)) \<and>
         (\<forall>k i. i \<in> set (items_of A k) \<longrightarrow>
            i \<in> set items \<and> (\<exists>p. selects 0 ps i p \<and> pid p = k))"
proof -
  from assign_ppe_to_persons_Inr_defined[OF assms] have d: "ious_defined ps items" .
  from assign_ppe_to_persons_spec[OF d, of IOU_THRESHOLD] assms
  have it: "\<And>k. items_of A k = filter (\<lambda>i. \<exists>p. selects 0 ps i p \<and> pid p = k)
      (sorted_reverse box_area items)"
    by (auto simp: IOU_THRESHOLD_def)
  have a: "\<forall>i \<in> set items.
            (\<exists>k. i \<in> set (items_of A k)) \<longleftrightarrow>
            (\<exists>p \<in> set ps. \<exists>r. calculate_iou (box p) (box i) = Inr r \<and> 0 < r)"
  proof
    fix i assume i: "i \<in> set items"
    with d have di: "\<forall>p \<in> set ps. \<exists>r. calculate_iou (box p) (box i) = Inr r"
      by (simp add: ious_defined_def)
    show "(\<exists>k. i \<in> set (items_of A k)) \<longleftrightarrow>
            (\<exists>p \<in> set ps. \<exists>r. calculate_iou (box p) (box i) = Inr r \<and> 0 < r)"
    proof
      assume "\<exists>k. i \<in> set (items_of A k)"
      with it obtain p where "selects 0 ps i p" by auto
      from selects_positive[OF this]
      show "\<exists>p \<in> set ps. \<exists>r. calculate_iou (box p) (box i) = Inr r \<and> 0 < r" by blast
    next
      assume "\<exists>p \<in> set ps. \<exists>r. calculate_iou (box p) (box i) = Inr r \<and> 0 < r"
      then obtain q r where "q \<in> set ps" "calculate_iou (box q) (box i) = Inr r" "0 < r"
        by blast
      with selects_exists[OF di, of q r 0] obtain p where "selects 0 ps i p" by auto
      with i have "i \<in> set (items_of A (pid p))"
        by (auto simp: it set_sorted_reverse)
      then show "\<exists>k. i \<in> set (items_of A k)" by blast
    qed
  qed
  have b: "\<forall>k i. i \<in> set (items_of A k) \<longrightarrow>
            i \<in> set items \<and> (\<exists>p. selects 0 ps i p \<and> pid p = k)"
    by (auto simp: it set_sorted_reverse)
  from a b show ?thesis by blast
qed


lemma ious_defined_positive:
  assumes "\<forall>p \<in> set ps. positive_area (box p)"
  shows "ious_defined ps items"
  using assms calculate_iou_defined by (simp add: ious_defined_def)

text \<open>
  C1, as stated: the person with the greatest IoU gets the item provided that IoU is at
  least \<open>IOU_THRESHOLD\<close>. With the configured threshold \<open>0\<close> and a single person
  whose IoU with the item is \<open>0\<close>, the proviso holds, and the item is discarded:
  \<^verbatim>\<open>best_iou\<close> starts at \<open>0\<close> and must be exceeded.
\<close>

theorem assign_threshold_counterexample:
  "calculate_iou (box (with_id (detection_of ''Person'' (0, 0, 10, 10) 0.9) 1))
     (box (detection_of ''Hardhat'' (20, 20, 30, 30) 0.8)) = Inr 0 \<and>
   (0::real) \<ge> IOU_THRESHOLD \<and>
   assign_ppe_to_persons IOU_THRESHOLD
     [with_id (detection_of ''Person'' (0, 0, 10, 10) 0.9) 1]
     [detection_of ''Hardhat'' (20, 20, 30, 30) 0.8] = Inr Map.empty"
  by (simp add: assign_ppe_to_persons_def sorted_reverse_def calculate_iou_def IOU_THRESHOLD_def)

theorem assign_ppe_to_persons_greedy_witness:
  "ious_defined
     [with_id (detection_of ''Person'' (0, 0, 50, 100) 0.9) 1,
      with_id (detection_of ''Person'' (200, 0, 250, 100) 0.8) 2]
     [detection_of ''Hardhat'' (10, 0, 30, 20) 0.7,
      detection_of ''Safety Vest'' (5, 30, 45, 80) 0.9,
      detection_of ''Mask'' (100, 100, 110, 110) 0.6] \<and>
   assign_ppe_to_persons IOU_THRESHOLD
     [with_id (detection_of ''Person'' (0, 0, 50, 100) 0.9) 1,
      with_id (detection_of ''Person'' (200, 0, 250, 100) 0.8) 2]
     [detection_of ''Hardhat'' (10, 0, 30, 20) 0.7,
      detection_of ''Safety Vest'' (5, 30, 45, 80) 0.9,
      detection_of ''Mask'' (100, 100, 110, 110) 0.6] =
     Inr [1 \<mapsto> [detection_of ''Safety Vest'' (5, 30, 45, 80) 0.9,
                  detection_of ''Hardhat'' (10, 0, 30, 20) 0.7]] \<and>
   sorted_reverse box_area
     [detection_of ''Hardhat'' (10, 0, 30, 20) 0.7,
      detection_of ''Safety Vest'' (5, 30, 45, 80) 0.9,
      detection_of ''Mask'' (100, 100, 110, 110) 0.6] =
     [detection_of ''Safety Vest'' (5, 30, 45, 80) 0.9,
      detection_of ''Hardhat'' (10, 0, 30, 20) 0.7,
      detection_of ''Mask'' (100, 100, 110, 110) 0.6] \<and>
   (2::int) \<notin> dom [(1::int) \<mapsto> [detection_of ''Safety Vest'' (5, 30, 45, 80) 0.9,
                                  detection_of ''Hardhat'' (10, 0, 30, 20) 0.7]]"
  (is "ious_defined ?ps ?items \<and> _ = Inr ?A \<and> _ = ?sorted \<and> _")
proof -
  have d: "ious_defined ?ps ?items"
    by (rule ious_defined_positive) (simp add: positive_area_def)
  have ev: "assign_ppe_to_persons IOU_THRESHOLD ?ps ?items = Inr ?A"
    by (simp add: assign_ppe_to_persons_def sorted_reverse_def box_area_def calculate_iou_def
        IOU_THRESHOLD_def append_item_def)
  have so: "sorted_reverse box_area ?items = ?sorted"
    by (simp add: sorted_reverse_def box_area_def)
  from assign_ppe_to_persons_greedy [OF d, of IOU_THRESHOLD] obtain A where
    run: "assign_ppe_to_persons IOU_THRESHOLD ?ps ?items = Inr A" and
    dm: "\<forall>k. k \<in> dom A \<longleftrightarrow> items_of A k \<noteq> []"
    by blast
  from run ev have A: "A = ?A" by simp
  have "items_of ?A 2 = []" by (simp add: items_of_def)
  with dm A have "2 \<notin> dom ?A" by blast
  with d ev so show ?thesis by blast
qed

theorem assign_zero_threshold_witness:
  "assign_ppe_to_persons IOU_THRESHOLD
     [with_id (detection_of ''Person'' (0, 0, 50, 100) 0.9) 1,
      with_id (detection_of ''Person'' (200, 0, 250, 100) 0.8) 2]
     [detection_of ''Hardhat'' (10, 0, 30, 20) 0.7,
      detection_of ''Mask'' (100, 100, 110, 110) 0.6] =
     Inr [1 \<mapsto> [detection_of ''Hardhat'' (10, 0, 30, 20) 0.7]] \<and>
   calculate_iou (0, 0, 50, 100) (100, 100, 110, 110) = Inr 0 \<and>
   calculate_iou (200, 0, 250, 100) (100, 100, 110, 110) = Inr 0 \<and>
   (\<nexists>k. detection_of ''Mask'' (100, 100, 110, 110) 0.6 \<in>
      set (items_of [1 \<mapsto> [detection_of ''Hardhat'' (10, 0, 30, 20) 0.7]] k))"
  (is "assign_ppe_to_persons _ ?ps ?items = Inr ?A \<and> _")
proof -
  let ?mask = "detection_of ''Mask'' (100, 100, 110, 110) 0.6"
  have ev: "assign_ppe_to_persons IOU_THRESHOLD ?ps ?items = Inr ?A"
    by (simp add: assign_ppe_to_persons_def sorted_reverse_def box_area_def calculate_iou_def
        IOU_THRESHOLD_def append_item_def)
  have z: "calculate_iou (0, 0, 50, 100) (100, 100, 110, 110) = Inr 0"
    "calculate_iou (200, 0, 250, 100) (100, 100, 110, 110) = Inr 0"
    by (simp_all add: calculate_iou_def)
  have m: "?mask \<in> set ?items" by simp
  from assign_zero_threshold [OF ev] m
  have "(\<exists>k. ?mask \<in> set (items_of ?A k)) \<longleftrightarrow>
        (\<exists>p \<in> set ?ps. \<exists>r. calculate_iou (box p) (box ?mask) = Inr r \<and> 0 < r)"
    by blast
  moreover have "\<not> (\<exists>p \<in> set ?ps. \<exists>r. calculate_iou (box p) (box ?mask) = Inr r \<and> 0 < r)"
    using z by simp
  ultimately have "\<nexists>k. ?mask \<in> set (items_of ?A k)" by blast
  with ev z show ?thesis by blast
qed

section \<open>Properties of the tracker\<close>

lemma nearest_loop_step:
  "nearest_loop cx cy ((k, data) # rest) m md =
     (if euclid (cx, cy) (center data) < 50 \<and> below md (euclid (cx, cy) (center data))
      then nearest_loop cx cy rest (Some k) (Some (euclid (cx, cy) (center data)))
      else nearest_loop cx cy rest m md)"
  by (cases "center data") (simp add: euclid_def below_def Let_def)

declare nearest_loop.simps(2) [simp del]

lemma nearest_loop_result:
  "(nearest_loop cx cy tr m md = m \<and>
      (\<forall>e \<in> set tr. \<not> (euclid (cx, cy) (center (snd e)) < 50 \<and>
                          below md (euclid (cx, cy) (center (snd e)))))) \<or>
   (\<exists>xs k data ys. tr = xs @ (k, data) # ys \<and>
      nearest_loop cx cy tr m md = Some k \<and>
      euclid (cx, cy) (center data) < 50 \<and> below md (euclid (cx, cy) (center data)) \<and>
      (\<forall>e \<in> set xs. euclid (cx, cy) (center data) < euclid (cx, cy) (center (snd e))) \<and>
      (\<forall>e \<in> set ys. euclid (cx, cy) (center data) \<le> euclid (cx, cy) (center (snd e))))"
proof (induction tr arbitrary: m md)
  case Nil
  show ?case by simp
next
  case (Cons e rest)
  obtain k data where e: "e = (k, data)" by (cases e)
  define d where "d = euclid (cx, cy) (center data)"
  show ?case
  proof (cases "d < 50 \<and> below md d")
    case True
    then have step: "nearest_loop cx cy (e # rest) m md = nearest_loop cx cy rest (Some k) (Some d)"
      by (simp add: e nearest_loop_step d_def)
    from Cons.IH[of "Some k" "Some d"] show ?thesis
    proof
      assume h: "nearest_loop cx cy rest (Some k) (Some d) = Some k \<and>
        (\<forall>e \<in> set rest. \<not> (euclid (cx, cy) (center (snd e)) < 50 \<and>
                          below (Some d) (euclid (cx, cy) (center (snd e)))))"
      have "\<forall>e \<in> set rest. d \<le> euclid (cx, cy) (center (snd e))"
      proof
        fix e' assume "e' \<in> set rest"
        with h have "\<not> (euclid (cx, cy) (center (snd e')) < 50 \<and>
                          euclid (cx, cy) (center (snd e')) < d)"
          by (simp add: below_def)
        with True show "d \<le> euclid (cx, cy) (center (snd e'))" by linarith
      qed
      with h True step have "e # rest = [] @ (k, data) # rest \<and>
        nearest_loop cx cy (e # rest) m md = Some k \<and>
        euclid (cx, cy) (center data) < 50 \<and> below md (euclid (cx, cy) (center data)) \<and>
        (\<forall>e \<in> set []. euclid (cx, cy) (center data) < euclid (cx, cy) (center (snd e))) \<and>
        (\<forall>e \<in> set rest. euclid (cx, cy) (center data) \<le> euclid (cx, cy) (center (snd e)))"
        by (simp add: e d_def)
      then show ?thesis by blast
    next
      assume "\<exists>xs k' data' ys. rest = xs @ (k', data') # ys \<and>
        nearest_loop cx cy rest (Some k) (Some d) = Some k' \<and>
        euclid (cx, cy) (center data') < 50 \<and> below (Some d) (euclid (cx, cy) (center data')) \<and>
        (\<forall>e \<in> set xs. euclid (cx, cy) (center data') < euclid (cx, cy) (center (snd e))) \<and>
        (\<forall>e \<in> set ys. euclid (cx, cy) (center data') \<le> euclid (cx, cy) (center (snd e)))"
      then obtain xs k' data' ys where h: "rest = xs @ (k', data') # ys"
        "nearest_loop cx cy rest (Some k) (Some d) = Some k'"
        "euclid (cx, cy) (center data') < 50" "below (Some d) (euclid (cx, cy) (center data'))"
        "\<forall>e \<in> set xs. euclid (cx, cy) (center data') < euclid (cx, cy) (center (snd e))"
        "\<forall>e \<in> set ys. euclid (cx, cy) (center data') \<le> euclid (cx, cy) (center (snd e))"
        by blast
      from h(4) have lt: "euclid (cx, cy) (center data') < d" by (simp add: below_def)
      with True have b: "below md (euclid (cx, cy) (center data'))"
        by (cases md) (auto simp: below_def)
      from h lt b step have "e # rest = (e # xs) @ (k', data') # ys \<and>
        nearest_loop cx cy (e # rest) m md = Some k' \<and>
        euclid (cx, cy) (center data') < 50 \<and> below md (euclid (cx, cy) (center data')) \<and>
        (\<forall>e \<in> set (e # xs). euclid (cx, cy) (center data') < euclid (cx, cy) (center (snd e))) \<and>
        (\<forall>e \<in> set ys. euclid (cx, cy) (center data') \<le> euclid (cx, cy) (center (snd e)))"
        by (simp add: e d_def)
      then show ?thesis by blast
    qed
  next
    case False
    then have step: "nearest_loop cx cy (e # rest) m md = nearest_loop cx cy rest m md"
      by (auto simp add: e nearest_loop_step d_def)
    from Cons.IH[of m md] show ?thesis
    proof
      assume "nearest_loop cx cy rest m md = m \<and>
        (\<forall>e \<in> set rest. \<not> (euclid (cx, cy) (center (snd e)) < 50 \<and>
                          below md (euclid (cx, cy) (center (snd e)))))"
      with False step show ?thesis by (simp add: e d_def)
    next
      assume "\<exists>xs k' data' ys. rest = xs @ (k', data') # ys \<and>
        nearest_loop cx cy rest m md = Some k' \<and>
        euclid (cx, cy) (center data') < 50 \<and> below md (euclid (cx, cy) (center data')) \<and>
        (\<forall>e \<in> set xs. euclid (cx, cy) (center data') < euclid (cx, cy) (center (snd e))) \<and>
        (\<forall>e \<in> set ys. euclid (cx, cy) (center data') \<le> euclid (cx, cy) (center (snd e)))"
      then obtain xs k' data' ys where h: "rest = xs @ (k', data') # ys"
        "nearest_loop cx cy rest m md = Some k'"
        "euclid (cx, cy) (center data') < 50" "below md (euclid (cx, cy) (center data'))"
        "\<forall>e \<in> set xs. euclid (cx, cy) (center data') < euclid (cx, cy) (center (snd e))"
        "\<forall>e \<in> set ys. euclid (cx, cy) (center data') \<le> euclid (cx, cy) (center (snd e))"
        by blast
      have lt: "euclid (cx, cy) (center data') < d"
      proof (cases "d < 50")
        case True
        with False have "\<not> below md d" by simp
        with h(4) show ?thesis by (cases md) (auto simp: below_def)
      next
        case False
        with h(3) show ?thesis by linarith
      qed
      from h lt step have "e # rest = (e # xs) @ (k', data') # ys \<and>
        nearest_loop cx cy (e # rest) m md = Some k' \<and>
        euclid (cx, cy) (center data') < 50 \<and> below md (euclid (cx, cy) (center data')) \<and>
        (\<forall>e \<in> set (e # xs). euclid (cx, cy) (center data') < euclid (cx, cy) (center (snd e))) \<and>
        (\<forall>e \<in> set ys. euclid (cx, cy) (center data') \<le> euclid (cx, cy) (center (snd e)))"
        by (simp add: e d_def)
      then show ?thesis by blast
    qed
  qed
qed

text \<open>The search from the initial loop variables.\<close>

lemma nearest_loop_None:
  "nearest_loop cx cy tr None None = None \<longleftrightarrow>
     (\<forall>e \<in> set tr. 50 \<le> euclid (cx, cy) (center (snd e)))"
  using nearest_loop_result[of cx cy tr None None]
  by (auto simp: below_def not_less)

lemma nearest_loop_Some:
  assumes "nearest_loop cx cy tr None None = Some k"
  shows "\<exists>xs data ys. tr = xs @ (k, data) # ys \<and>
      euclid (cx, cy) (center data) < 50 \<and>
      (\<forall>e \<in> set xs. euclid (cx, cy) (center data) < euclid (cx, cy) (center (snd e))) \<and>
      (\<forall>e \<in> set ys. euclid (cx, cy) (center data) \<le> euclid (cx, cy) (center (snd e)))"
  using nearest_loop_result[of cx cy tr None None] assms
  by auto


lemma map_fst_dict_set:
  "map fst (dict_set k v l) = (if k \<in> fst ` set l then map fst l else map fst l @ [k])"
proof (induction l)
  case Nil
  show ?case by simp
next
  case (Cons e rest)
  obtain k' v' where e: "e = (k', v')" by (cases e)
  show ?case
  proof (cases "k' = k")
    case True
    with e show ?thesis by simp
  next
    case False
    with e Cons.IH show ?thesis by (cases "k \<in> fst ` set rest") auto
  qed
qed

lemma dict_set_keys: "fst ` set (dict_set k v l) = insert k (fst ` set l)"
proof (cases "k \<in> fst ` set l")
  case True
  then have "map fst (dict_set k v l) = map fst l" by (simp add: map_fst_dict_set)
  then have "set (map fst (dict_set k v l)) = set (map fst l)" by simp
  with True show ?thesis by (simp add: insert_absorb)
next
  case False
  then have "map fst (dict_set k v l) = map fst l @ [k]" by (simp add: map_fst_dict_set)
  then have "set (map fst (dict_set k v l)) = set (map fst l @ [k])" by simp
  then show ?thesis by simp
qed

lemma dict_set_distinct:
  "distinct (map fst l) \<Longrightarrow> distinct (map fst (dict_set k v l))"
  by (simp add: map_fst_dict_set)

lemma dict_set_entries:
  "distinct (map fst l) \<Longrightarrow> set (dict_set k v l) = insert (k, v) {e \<in> set l. fst e \<noteq> k}"
proof (induction l)
  case Nil
  show ?case by simp
next
  case (Cons e rest)
  obtain k' v' where e: "e = (k', v')" by (cases e)
  show ?case
  proof (cases "k' = k")
    case True
    with Cons.prems e have "\<forall>x \<in> set rest. fst x \<noteq> k" by force
    with True e show ?thesis by auto
  next
    case False
    with Cons e show ?thesis by auto
  qed
qed

text \<open>The two branches of the loop body of \<open>track_persons\<close>.\<close>

lemma track_one_matched:
  assumes "nearest_loop (fst (centroid (box person))) (snd (centroid (box person)))
             (tracked_persons s) None None = Some m"
  shows "track_one now s person =
           (with_id person m,
            s\<lparr>tracked_persons :=
                dict_set m \<lparr>center = centroid (box person), timestamp = now\<rparr>
                  (tracked_persons s)\<rparr>)"
  using assms by (cases "box person") (simp add: track_one_def centroid_def Let_def)

lemma track_one_minted:
  assumes "nearest_loop (fst (centroid (box person))) (snd (centroid (box person)))
             (tracked_persons s) None None = None"
  shows "track_one now s person =
           (with_id person (id_counter s + 1),
            s\<lparr>id_counter := id_counter s + 1,
              tracked_persons :=
                dict_set (id_counter s + 1) \<lparr>center = centroid (box person), timestamp = now\<rparr>
                  (tracked_persons s)\<rparr>)"
  using assms by (cases "box person") (simp add: track_one_def centroid_def Let_def)

lemma nearest_loop_key:
  assumes "nearest_loop cx cy tr None None = Some k"
  shows "k \<in> fst ` set tr"
  using nearest_loop_Some[OF assms] by force

lemma track_one_id:
  assumes "track_one now s person = (p, s')"
  shows "(pid p \<in> track_ids s \<and> id_counter s' = id_counter s) \<or>
         (pid p = id_counter s + 1 \<and> id_counter s' = id_counter s + 1)"
proof (cases "nearest_loop (fst (centroid (box person))) (snd (centroid (box person)))
             (tracked_persons s) None None")
  case None
  from track_one_minted[OF None, of now] assms show ?thesis by auto
next
  case (Some m)
  from nearest_loop_key[OF Some] have "m \<in> track_ids s" by (simp add: track_ids_def)
  with track_one_matched[OF Some, of now] assms show ?thesis by auto
qed

lemma track_one_track_ids:
  assumes "track_one now s person = (p, s')"
  shows "track_ids s' = insert (pid p) (track_ids s)"
proof (cases "nearest_loop (fst (centroid (box person))) (snd (centroid (box person)))
             (tracked_persons s) None None")
  case None
  from track_one_minted[OF None, of now] assms show ?thesis
    by (auto simp: track_ids_def dict_set_keys)
next
  case (Some m)
  from track_one_matched[OF Some, of now] assms show ?thesis
    by (auto simp: track_ids_def dict_set_keys)
qed

lemma track_one_distinct:
  assumes "track_one now s person = (p, s')" and "distinct (map fst (tracked_persons s))"
  shows "distinct (map fst (tracked_persons s'))"
proof (cases "nearest_loop (fst (centroid (box person))) (snd (centroid (box person)))
             (tracked_persons s) None None")
  case None
  from track_one_minted[OF None, of now] assms show ?thesis
    by (auto simp: dict_set_distinct)
next
  case (Some m)
  from track_one_matched[OF Some, of now] assms show ?thesis
    by (auto simp: dict_set_distinct)
qed

lemma track_one_inv:
  assumes "track_one now s person = (p, s')" and "detector_inv s"
  shows "detector_inv s' \<and> 0 < pid p \<and> pid p \<le> id_counter s' \<and> id_counter s \<le> id_counter s'"
proof -
  from assms(2) have d: "distinct (map fst (tracked_persons s))"
    and b: "\<forall>k \<in> track_ids s. 0 < k \<and> k \<le> id_counter s"
    and c: "0 \<le> id_counter s"
    by (simp_all add: detector_inv_def track_ids_def)
  from track_one_distinct[OF assms(1) d] have d': "distinct (map fst (tracked_persons s'))" .
  from track_one_track_ids[OF assms(1)] have i: "track_ids s' = insert (pid p) (track_ids s)" .
  from track_one_id[OF assms(1)] b c i
  have "0 < pid p \<and> pid p \<le> id_counter s' \<and> id_counter s \<le> id_counter s' \<and>
        (\<forall>k \<in> track_ids s'. 0 < k \<and> k \<le> id_counter s')"
    by auto
  with d' c show ?thesis by (auto simp add: detector_inv_def track_ids_def)
qed


lemma track_loop_ids:
  assumes "track_loop clock i s ps = (out, s')"
  shows "id_counter s \<le> id_counter s' \<and>
         track_ids s' = track_ids s \<union> pid ` set out \<and>
         (\<forall>p \<in> set out. pid p \<in> track_ids s \<or> id_counter s < pid p)"
  using assms
proof (induction ps arbitrary: i s out s')
  case Nil
  then show ?case by simp
next
  case (Cons person rest)
  obtain p s1 where one: "track_one (clock i) s person = (p, s1)"
    by (cases "track_one (clock i) s person")
  obtain out1 s2 where rest: "track_loop clock (Suc i) s1 rest = (out1, s2)"
    by (cases "track_loop clock (Suc i) s1 rest")
  from Cons.prems one rest have o: "out = p # out1" and s': "s' = s2" by simp_all
  from track_one_id[OF one] have
    pk: "pid p \<in> track_ids s \<or> id_counter s < pid p" and c1: "id_counter s \<le> id_counter s1"
    by auto
  from track_one_track_ids[OF one] have t1: "track_ids s1 = insert (pid p) (track_ids s)" .
  from Cons.IH[OF rest] have
    c2: "id_counter s1 \<le> id_counter s2" and
    t2: "track_ids s2 = track_ids s1 \<union> pid ` set out1" and
    k2: "\<forall>q \<in> set out1. pid q \<in> track_ids s1 \<or> id_counter s1 < pid q"
    by blast+
  have "\<forall>q \<in> set out. pid q \<in> track_ids s \<or> id_counter s < pid q"
  proof
    fix q assume "q \<in> set out"
    with o have "q = p \<or> q \<in> set out1" by simp
    then show "pid q \<in> track_ids s \<or> id_counter s < pid q"
    proof
      assume "q = p" with pk show ?thesis by simp
    next
      assume "q \<in> set out1"
      with k2 have "pid q \<in> track_ids s1 \<or> id_counter s1 < pid q" by blast
      with t1 pk c1 show ?thesis by auto
    qed
  qed
  with c1 c2 t1 t2 o s' show ?case by auto
qed

lemma track_loop_inv:
  assumes "track_loop clock i s ps = (out, s')" and "detector_inv s"
  shows "detector_inv s' \<and> (\<forall>p \<in> set out. 0 < pid p \<and> pid p \<le> id_counter s')"
  using assms
proof (induction ps arbitrary: i s out s')
  case Nil
  then show ?case by simp
next
  case (Cons person rest)
  obtain p s1 where one: "track_one (clock i) s person = (p, s1)"
    by (cases "track_one (clock i) s person")
  obtain out1 s2 where rest: "track_loop clock (Suc i) s1 rest = (out1, s2)"
    by (cases "track_loop clock (Suc i) s1 rest")
  from Cons.prems one rest have o: "out = p # out1" and s': "s' = s2" by simp_all
  from track_one_inv[OF one Cons.prems(2)] have
    i1: "detector_inv s1" and pp: "0 < pid p" "pid p \<le> id_counter s1" by simp_all
  from Cons.IH[OF rest i1] have
    i2: "detector_inv s2" and q: "\<forall>q \<in> set out1. 0 < pid q \<and> pid q \<le> id_counter s2"
    by blast+
  from track_loop_ids[OF rest] have "id_counter s1 \<le> id_counter s2" by blast
  with pp q i2 o s' show ?case by auto
qed

lemma track_loop_length:
  assumes "track_loop clock i s ps = (out, s')"
  shows "length out = length ps"
  using track_loop_untracked[of clock i s ps] assms
  by (metis fst_conv length_map)

lemma purge_subset: "set (purge t l) \<subseteq> set l"
  by (auto simp: purge_def)

lemma purge_distinct: "distinct (map fst l) \<Longrightarrow> distinct (map fst (purge t l))"
  by (simp add: purge_def distinct_map_filter)

lemma purge_entries:
  "e \<in> set (purge t l) \<longleftrightarrow> e \<in> set l \<and> t - timestamp (snd e) < 2"
  by (cases e) (auto simp: purge_def)

lemma track_persons_unfold:
  assumes "track_loop clock 0 s ps = (out, s1)"
  shows "track_persons clock s ps =
           (out, s1\<lparr>tracked_persons := purge (clock (length ps)) (tracked_persons s1)\<rparr>)"
  using assms by (simp add: track_persons_def Let_def)

lemma track_persons_ids:
  assumes "track_persons clock s ps = (out, s')"
  shows "id_counter s \<le> id_counter s' \<and>
         track_ids s' \<subseteq> track_ids s \<union> pid ` set out \<and>
         (\<forall>p \<in> set out. pid p \<in> track_ids s \<or> id_counter s < pid p)"
proof -
  obtain out1 s1 where l: "track_loop clock 0 s ps = (out1, s1)"
    by (cases "track_loop clock 0 s ps")
  from track_persons_unfold[OF l] assms have
    o: "out = out1" and
    s': "s' = s1\<lparr>tracked_persons := purge (clock (length ps)) (tracked_persons s1)\<rparr>"
    by simp_all
  from s' have "track_ids s' \<subseteq> track_ids s1"
    using purge_subset[of "clock (length ps)" "tracked_persons s1"]
    by (auto simp: track_ids_def)
  with track_loop_ids[OF l] o s' show ?thesis by auto
qed

lemma track_persons_inv:
  assumes "track_persons clock s ps = (out, s')" and "detector_inv s"
  shows "detector_inv s' \<and> (\<forall>p \<in> set out. 0 < pid p \<and> pid p \<le> id_counter s')"
proof -
  obtain out1 s1 where l: "track_loop clock 0 s ps = (out1, s1)"
    by (cases "track_loop clock 0 s ps")
  from track_persons_unfold[OF l] assms have
    o: "out = out1" and
    s': "s' = s1\<lparr>tracked_persons := purge (clock (length ps)) (tracked_persons s1)\<rparr>"
    by simp_all
  from track_loop_inv[OF l assms(2)] have
    i1: "detector_inv s1" and q: "\<forall>p \<in> set out1. 0 < pid p \<and> pid p \<le> id_counter s1"
    by blast+
  from i1 s' have "detector_inv s'"
    using purge_subset[of "clock (length ps)" "tracked_persons s1"]
      purge_distinct[of "tracked_persons s1" "clock (length ps)"]
    by (auto simp: detector_inv_def)
  with q o s' show ?thesis by simp
qed

text \<open>An ID that is at most the counter and not a key is retired: it never comes back.\<close>

lemma track_persons_retired:
  assumes "track_persons clock s ps = (out, s')"
    and "k \<le> id_counter s" and "k \<notin> track_ids s"
  shows "k \<le> id_counter s' \<and> k \<notin> track_ids s' \<and> k \<notin> pid ` set out"
proof -
  from track_persons_ids[OF assms(1)] have
    c: "id_counter s \<le> id_counter s'" and
    t: "track_ids s' \<subseteq> track_ids s \<union> pid ` set out" and
    q: "\<forall>p \<in> set out. pid p \<in> track_ids s \<or> id_counter s < pid p"
    by blast+
  from q assms(2,3) have "k \<notin> pid ` set out" by force
  with c t assms(2,3) show ?thesis by auto
qed

lemma track_frames_retired:
  assumes "track_frames s frames = (outs, s')"
    and "k \<le> id_counter s" and "k \<notin> track_ids s"
  shows "k \<le> id_counter s' \<and> k \<notin> track_ids s' \<and> (\<forall>out \<in> set outs. k \<notin> pid ` set out)"
  using assms
proof (induction frames arbitrary: s outs s')
  case Nil
  then show ?case by simp
next
  case (Cons f rest)
  obtain clock ps where f: "f = (clock, ps)" by (cases f)
  obtain out s1 where one: "track_persons clock s ps = (out, s1)"
    by (cases "track_persons clock s ps")
  obtain outs1 s2 where r: "track_frames s1 rest = (outs1, s2)"
    by (cases "track_frames s1 rest")
  from Cons.prems(1) f one r have o: "outs = out # outs1" and s': "s' = s2" by simp_all
  from track_persons_retired[OF one Cons.prems(2,3)] have
    k1: "k \<le> id_counter s1" "k \<notin> track_ids s1" "k \<notin> pid ` set out" by simp_all
  from Cons.IH[OF r k1(1,2)] k1(3) o s' show ?case by simp
qed

lemma track_frames_inv:
  assumes "track_frames s frames = (outs, s')" and "detector_inv s"
  shows "detector_inv s' \<and> id_counter s \<le> id_counter s' \<and>
         (\<forall>out \<in> set outs. \<forall>p \<in> set out. 0 < pid p \<and> pid p \<le> id_counter s')"
  using assms
proof (induction frames arbitrary: s outs s')
  case Nil
  then show ?case by simp
next
  case (Cons f rest)
  obtain clock ps where f: "f = (clock, ps)" by (cases f)
  obtain out s1 where one: "track_persons clock s ps = (out, s1)"
    by (cases "track_persons clock s ps")
  obtain outs1 s2 where r: "track_frames s1 rest = (outs1, s2)"
    by (cases "track_frames s1 rest")
  from Cons.prems(1) f one r have o: "outs = out # outs1" and s': "s' = s2" by simp_all
  from track_persons_inv[OF one Cons.prems(2)] have
    i1: "detector_inv s1" and q1: "\<forall>p \<in> set out. 0 < pid p \<and> pid p \<le> id_counter s1"
    by blast+
  from track_persons_ids[OF one] have c1: "id_counter s \<le> id_counter s1" by blast
  from Cons.IH[OF r i1] have
    i2: "detector_inv s2" and c2: "id_counter s1 \<le> id_counter s2" and
    q2: "\<forall>out \<in> set outs1. \<forall>p \<in> set out. 0 < pid p \<and> pid p \<le> id_counter s2"
    by blast+
  from q1 c2 have "\<forall>p \<in> set out. 0 < pid p \<and> pid p \<le> id_counter s2" by force
  with i2 c1 c2 q2 o s' show ?case by auto
qed

lemma init_detector_inv: "detector_inv init_detector"
  by (simp add: detector_inv_def init_detector_def)



lemma track_one_pid_minted:
  assumes "\<forall>e \<in> set (tracked_persons s). 50 \<le> euclid (centroid (box d)) (center (snd e))"
  shows "pid (fst (track_one now s d)) = id_counter s + 1 \<and>
         id_counter (snd (track_one now s d)) = id_counter s + 1"
proof -
  let ?cx = "fst (centroid (box d))" and ?cy = "snd (centroid (box d))"
  from assms nearest_loop_None[of ?cx ?cy "tracked_persons s"]
  have "nearest_loop ?cx ?cy (tracked_persons s) None None = None" by simp
  from track_one_minted[OF this, of now] show ?thesis by simp
qed

lemma euclid_horizontal: "euclid (a, y) (b, y) = \<bar>a - b\<bar>"
  by (simp add: euclid_def)









lemma distinct_keys_entry:
  assumes "distinct (map fst l)" and "e \<in> set l" and "e' \<in> set l" and "fst e = fst e'"
  shows "e = e'"
  using assms by (metis eq_key_imp_eq_value prod.collapse)

text \<open>
  C7. The invariant \<open>detector_inv\<close> holds of a new detector and after every frame. For a
  frame processed from a state with the invariant: of the tracks live after the matching,
  those whose timestamp is at least 2 seconds before \<^verbatim>\<open>current_time\<close> are no longer
  keys and the others stay, so every remaining track is younger than 2 seconds; every ID
  given in the frame is positive, at most the counter, and either a live key or greater
  than the counter was before, and the counter never decreases; an ID that is at most the
  counter and not a key (a purged one) is not a key after any later frames and is given
  to no detection of them; and a detection that matches no live track gets the counter
  plus one, which was never a key nor given before.
\<close>

theorem track_persons_purge_and_fresh_ids:
  assumes "detector_inv s"
    and "track_persons clock s ps = (out, s')"
    and "track_frames s' frames = (outs, s'')"
  shows
   "detector_inv init_detector \<and>
    (\<forall>e \<in> set (tracked_persons (snd (track_loop clock 0 s ps))).
       (2 \<le> clock (length ps) - timestamp (snd e) \<longrightarrow>
          fst e \<notin> track_ids s' \<and> fst e \<le> id_counter s') \<and>
       (clock (length ps) - timestamp (snd e) < 2 \<longrightarrow> e \<in> set (tracked_persons s'))) \<and>
    (\<forall>e \<in> set (tracked_persons s'). clock (length ps) - timestamp (snd e) < 2) \<and>
    detector_inv s' \<and> id_counter s \<le> id_counter s' \<and>
    (\<forall>p \<in> set out. 0 < pid p \<and> pid p \<le> id_counter s' \<and>
       (pid p \<in> track_ids s \<or> id_counter s < pid p)) \<and>
    (\<forall>k. k \<le> id_counter s' \<and> k \<notin> track_ids s' \<longrightarrow>
       k \<notin> track_ids s'' \<and> (\<forall>fr \<in> set outs. k \<notin> pid ` set fr)) \<and>
    (\<forall>now d. (\<forall>e \<in> set (tracked_persons s'). 50 \<le> euclid (centroid (box d)) (center (snd e))) \<longrightarrow>
       pid (fst (track_one now s' d)) = id_counter s' + 1 \<and>
       id_counter s' + 1 \<notin> track_ids s \<union> track_ids s' \<union> pid ` set out)"
proof -
  obtain out1 s1 where l: "track_loop clock 0 s ps = (out1, s1)"
    by (cases "track_loop clock 0 s ps")
  let ?t = "clock (length ps)"
  from track_persons_unfold[OF l] assms(2) have
    o: "out = out1" and
    s': "s' = s1\<lparr>tracked_persons := purge ?t (tracked_persons s1)\<rparr>"
    by simp_all
  from track_loop_inv[OF l assms(1)] have i1: "detector_inv s1" by blast
  then have d1: "distinct (map fst (tracked_persons s1))"
    and b1: "\<forall>k \<in> fst ` set (tracked_persons s1). k \<le> id_counter s1"
    by (auto simp: detector_inv_def)
  have tr': "tracked_persons s' = purge ?t (tracked_persons s1)" and c': "id_counter s' = id_counter s1"
    using s' by simp_all
  have a: "\<forall>e \<in> set (tracked_persons (snd (track_loop clock 0 s ps))).
       (2 \<le> ?t - timestamp (snd e) \<longrightarrow> fst e \<notin> track_ids s' \<and> fst e \<le> id_counter s') \<and>
       (?t - timestamp (snd e) < 2 \<longrightarrow> e \<in> set (tracked_persons s'))"
  proof
    fix e assume "e \<in> set (tracked_persons (snd (track_loop clock 0 s ps)))"
    with l have e: "e \<in> set (tracked_persons s1)" by simp
    have "2 \<le> ?t - timestamp (snd e) \<longrightarrow> fst e \<notin> track_ids s'"
    proof
      assume old: "2 \<le> ?t - timestamp (snd e)"
      show "fst e \<notin> track_ids s'"
      proof
        assume "fst e \<in> track_ids s'"
        then obtain e' where e': "e' \<in> set (purge ?t (tracked_persons s1))" "fst e' = fst e"
          by (auto simp: track_ids_def tr')
        from e'(1) have m: "e' \<in> set (tracked_persons s1)" "?t - timestamp (snd e') < 2"
          by (simp_all add: purge_entries)
        from distinct_keys_entry[OF d1 m(1) e e'(2)] have "e' = e" .
        with m(2) old show False by simp
      qed
    qed
    moreover from e b1 have "fst e \<le> id_counter s'" by (simp add: c')
    moreover from e have "?t - timestamp (snd e) < 2 \<longrightarrow> e \<in> set (tracked_persons s')"
      by (simp add: tr' purge_entries)
    ultimately show "(2 \<le> ?t - timestamp (snd e) \<longrightarrow> fst e \<notin> track_ids s' \<and> fst e \<le> id_counter s') \<and>
       (?t - timestamp (snd e) < 2 \<longrightarrow> e \<in> set (tracked_persons s'))"
      by blast
  qed
  have b: "\<forall>e \<in> set (tracked_persons s'). ?t - timestamp (snd e) < 2"
    by (simp add: tr' purge_entries)
  from track_persons_inv[OF assms(2,1)] have
    i': "detector_inv s'" and q: "\<forall>p \<in> set out. 0 < pid p \<and> pid p \<le> id_counter s'"
    by blast+
  from track_persons_ids[OF assms(2)] have
    c: "id_counter s \<le> id_counter s'" and
    sub: "track_ids s' \<subseteq> track_ids s \<union> pid ` set out" and
    r: "\<forall>p \<in> set out. pid p \<in> track_ids s \<or> id_counter s < pid p"
    by blast+
  have d: "\<forall>p \<in> set out. 0 < pid p \<and> pid p \<le> id_counter s' \<and>
       (pid p \<in> track_ids s \<or> id_counter s < pid p)"
    using q r by blast
  have e: "\<forall>k. k \<le> id_counter s' \<and> k \<notin> track_ids s' \<longrightarrow>
       k \<notin> track_ids s'' \<and> (\<forall>fr \<in> set outs. k \<notin> pid ` set fr)"
    using track_frames_retired[OF assms(3)] by blast
  from assms(1) have bs: "\<forall>k \<in> track_ids s. k \<le> id_counter s"
    by (auto simp: detector_inv_def track_ids_def)
  from i' have bs': "\<forall>k \<in> track_ids s'. k \<le> id_counter s'"
    by (auto simp: detector_inv_def track_ids_def)
  have fresh: "id_counter s' + 1 \<notin> track_ids s \<union> track_ids s' \<union> pid ` set out"
    using bs bs' q c by force
  have f: "\<forall>now d. (\<forall>e \<in> set (tracked_persons s'). 50 \<le> euclid (centroid (box d)) (center (snd e))) \<longrightarrow>
       pid (fst (track_one now s' d)) = id_counter s' + 1 \<and>
       id_counter s' + 1 \<notin> track_ids s \<union> track_ids s' \<union> pid ` set out"
    using track_one_pid_minted fresh by blast
  from init_detector_inv a b i' c d e f show ?thesis by blast
qed


theorem track_persons_purge_and_fresh_ids_witness:
  "detector_inv \<lparr>id_counter = 1, tracked_persons = [(1, \<lparr>center = (25, 50), timestamp = 0\<rparr>)]\<rparr> \<and>
   track_persons (\<lambda>i. 10)
     \<lparr>id_counter = 1, tracked_persons = [(1, \<lparr>center = (25, 50), timestamp = 0\<rparr>)]\<rparr>
     [detection_of ''Person'' (200, 0, 250, 100) 0.9] =
     ([with_id (detection_of ''Person'' (200, 0, 250, 100) 0.9) 2],
      \<lparr>id_counter = 2, tracked_persons = [(2, \<lparr>center = (225, 50), timestamp = 10\<rparr>)]\<rparr>) \<and>
   track_frames
     \<lparr>id_counter = 2, tracked_persons = [(2, \<lparr>center = (225, 50), timestamp = 10\<rparr>)]\<rparr>
     [(\<lambda>i. 20, [detection_of ''Person'' (0, 0, 50, 100) 0.8])] =
     ([[with_id (detection_of ''Person'' (0, 0, 50, 100) 0.8) 3]],
      \<lparr>id_counter = 3, tracked_persons = [(3, \<lparr>center = (25, 50), timestamp = 20\<rparr>)]\<rparr>) \<and>
   1 \<notin> track_ids \<lparr>id_counter = 2, tracked_persons = [(2, \<lparr>center = (225, 50), timestamp = 10\<rparr>)]\<rparr> \<and>
   1 \<notin> track_ids \<lparr>id_counter = 3, tracked_persons = [(3, \<lparr>center = (25, 50), timestamp = 20\<rparr>)]\<rparr> \<and>
   1 \<notin> pid ` set [with_id (detection_of ''Person'' (0, 0, 50, 100) 0.8) 3]"
  (is "detector_inv ?s \<and> track_persons ?clock ?s ?ps = (?out, ?s') \<and>
       track_frames ?s' ?frames = (?outs, ?s'') \<and> _")
proof -
  have inv: "detector_inv ?s" by (simp add: detector_inv_def)
  have one: "track_persons ?clock ?s ?ps = (?out, ?s')"
    by (simp add: track_persons_def track_one_def nearest_loop_step below_def
        euclid_horizontal purge_def Let_def)
  have two: "track_frames ?s' ?frames = (?outs, ?s'')"
    by (simp add: track_persons_def track_one_def nearest_loop_step below_def
        euclid_horizontal purge_def Let_def)
  have mid: "(1, \<lparr>center = (25, 50), timestamp = 0\<rparr>) \<in>
      set (tracked_persons (snd (track_loop ?clock 0 ?s ?ps)))"
    by (simp add: track_one_def nearest_loop_step below_def euclid_horizontal Let_def)
  have old: "(2::real) \<le> ?clock (length ?ps) - timestamp (snd (1::int, \<lparr>center = (25, 50), timestamp = 0\<rparr>))"
    by simp
  note inst = track_persons_purge_and_fresh_ids [OF inv one two]
  from inst mid old have p1: "fst (1::int, \<lparr>center = (25::real, 50::real), timestamp = 0::real\<rparr>) \<notin> track_ids ?s'
      \<and> fst (1::int, \<lparr>center = (25::real, 50::real), timestamp = 0::real\<rparr>) \<le> id_counter ?s'"
    by blast
  then have r: "1 \<le> id_counter ?s' \<and> 1 \<notin> track_ids ?s'" by simp
  from inst r have "1 \<notin> track_ids ?s'' \<and> (\<forall>fr \<in> set ?outs. 1 \<notin> pid ` set fr)"
    by blast
  with r have "1 \<notin> track_ids ?s' \<and> 1 \<notin> track_ids ?s'' \<and>
      1 \<notin> pid ` set [with_id (detection_of ''Person'' (0, 0, 50, 100) 0.8) 3]"
    by simp
  with inv one two show ?thesis by blast
qed

lemma track_one_entries:
  assumes "track_one now s d = (p, s')" and "detector_inv s"
  shows "set (tracked_persons s') =
           insert (pid p, \<lparr>center = centroid (box d), timestamp = now\<rparr>)
             {e \<in> set (tracked_persons s). fst e \<noteq> pid p}"
proof -
  from assms(2) have dk: "distinct (map fst (tracked_persons s))"
    by (simp add: detector_inv_def)
  show ?thesis
  proof (cases "nearest_loop (fst (centroid (box d))) (snd (centroid (box d)))
             (tracked_persons s) None None")
    case None
    from track_one_minted[OF None, of now] assms(1) show ?thesis
      by (auto simp: dict_set_entries[OF dk])
  next
    case (Some m)
    from track_one_matched[OF Some, of now] assms(1) show ?thesis
      by (auto simp: dict_set_entries[OF dk])
  qed
qed

lemma track_one_not_claimed:
  assumes "track_one now s d = (p, s')"
    and "\<forall>k \<in> C. k \<le> id_counter s"
    and "\<forall>k \<in> C. \<forall>data. (k, data) \<in> set (tracked_persons s) \<longrightarrow>
           50 \<le> euclid (centroid (box d)) (center data)"
  shows "pid p \<notin> C"
proof (cases "nearest_loop (fst (centroid (box d))) (snd (centroid (box d)))
             (tracked_persons s) None None")
  case None
  from track_one_minted[OF None, of now] assms(1) have "pid p = id_counter s + 1" by auto
  with assms(2) show ?thesis by force
next
  case (Some m)
  from track_one_matched[OF Some, of now] assms(1) have m: "pid p = m" by auto
  from nearest_loop_Some[OF Some] obtain data where
    "(m, data) \<in> set (tracked_persons s)" "euclid (centroid (box d)) (center data) < 50"
    by force
  with assms(3) m show ?thesis by force
qed

lemma track_loop_distinct:
  assumes "track_loop clock i s ps = (out, s')" and "detector_inv s" and "far_apart ps"
    and "\<forall>k \<in> C. k \<le> id_counter s"
    and "\<forall>k \<in> C. \<forall>data. (k, data) \<in> set (tracked_persons s) \<longrightarrow>
           (\<forall>d \<in> set ps. 50 \<le> euclid (centroid (box d)) (center data))"
  shows "distinct (map pid out) \<and> pid ` set out \<inter> C = {}"
  using assms
proof (induction ps arbitrary: i s out s' C)
  case Nil
  then show ?case by simp
next
  case (Cons person rest)
  obtain p s1 where one: "track_one (clock i) s person = (p, s1)"
    by (cases "track_one (clock i) s person")
  obtain out1 s2 where rest: "track_loop clock (Suc i) s1 rest = (out1, s2)"
    by (cases "track_loop clock (Suc i) s1 rest")
  from Cons.prems(1) one rest have o: "out = p # out1" by simp
  have here: "\<forall>k \<in> C. \<forall>data. (k, data) \<in> set (tracked_persons s) \<longrightarrow>
           50 \<le> euclid (centroid (box person)) (center data)"
    using Cons.prems(5) by simp
  from track_one_not_claimed[OF one Cons.prems(4) here] have fresh: "pid p \<notin> C" .
  from track_one_inv[OF one Cons.prems(2)] have
    i1: "detector_inv s1" and le: "pid p \<le> id_counter s1" "id_counter s \<le> id_counter s1"
    by simp_all
  from Cons.prems(3) have far: "far_apart rest"
    and sep: "\<forall>e \<in> set rest. 50 \<le> euclid (centroid (box e)) (centroid (box person))"
    by simp_all
  have bound: "\<forall>k \<in> insert (pid p) C. k \<le> id_counter s1"
    using le Cons.prems(4) by force
  have away: "\<forall>k \<in> insert (pid p) C. \<forall>data. (k, data) \<in> set (tracked_persons s1) \<longrightarrow>
           (\<forall>d \<in> set rest. 50 \<le> euclid (centroid (box d)) (center data))"
  proof (intro ballI allI impI)
    fix k data d
    assume k: "k \<in> insert (pid p) C" and e: "(k, data) \<in> set (tracked_persons s1)"
      and d: "d \<in> set rest"
    from e track_one_entries[OF one Cons.prems(2)] have
      "(k, data) = (pid p, \<lparr>center = centroid (box person), timestamp = clock i\<rparr>) \<or>
       ((k, data) \<in> set (tracked_persons s) \<and> k \<noteq> pid p)"
      by auto
    then show "50 \<le> euclid (centroid (box d)) (center data)"
    proof
      assume "(k, data) = (pid p, \<lparr>center = centroid (box person), timestamp = clock i\<rparr>)"
      then have "center data = centroid (box person)" by simp
      with sep d show ?thesis by simp
    next
      assume x: "(k, data) \<in> set (tracked_persons s) \<and> k \<noteq> pid p"
      with k have "k \<in> C" by simp
      with x Cons.prems(5) d show ?thesis by simp
    qed
  qed
  from Cons.IH[OF rest i1 far bound away] have
    "distinct (map pid out1)" "pid ` set out1 \<inter> insert (pid p) C = {}"
    by simp_all
  with o fresh show ?case by auto
qed

text \<open>
  C5, as stated: no two detections processed in the same frame are assigned the same ID.
  With one live track and two detections whose centroids are 0 and 10 pixels from it,
  the first detection is matched to the track, the track stays a candidate, and the
  second detection is matched to it too.
\<close>

theorem track_persons_same_id_counterexample:
  "map pid (fst (track_persons (\<lambda>i. 1)
     \<lparr>id_counter = 1, tracked_persons = [(1, \<lparr>center = (25, 50), timestamp = 0\<rparr>)]\<rparr>
     [detection_of ''Person'' (0, 0, 50, 100) 0.9,
      detection_of ''Person'' (10, 0, 60, 100) 0.8])) = [1, 1]"
  by (simp add: track_persons_def track_one_def nearest_loop_step below_def
      euclid_horizontal purge_def Let_def)

text \<open>
  C5, amended: a matched track is not consumed, so two detections of one frame can get
  the same ID; but when the centroids of the detections of a frame are pairwise at least
  50 pixels apart, every detection gets an ID and no two detections of the frame get the
  same one.
\<close>

theorem track_persons_distinct_ids:
  assumes "detector_inv s" and "far_apart ps"
  shows "distinct (map pid (fst (track_persons clock s ps))) \<and>
         length (fst (track_persons clock s ps)) = length ps"
proof -
  obtain out s1 where l: "track_loop clock 0 s ps = (out, s1)"
    by (cases "track_loop clock 0 s ps")
  from track_loop_distinct[OF l assms, of "{}"] have "distinct (map pid out)" by simp
  moreover from track_loop_length[OF l] have "length out = length ps" .
  ultimately show ?thesis using track_persons_unfold[OF l] by simp
qed

theorem track_persons_distinct_ids_witness:
  "detector_inv \<lparr>id_counter = 1, tracked_persons = [(1, \<lparr>center = (25, 50), timestamp = 0\<rparr>)]\<rparr> \<and>
   far_apart [detection_of ''Person'' (0, 0, 50, 100) 0.9,
              detection_of ''Person'' (60, 0, 110, 100) 0.8] \<and>
   map pid (fst (track_persons (\<lambda>i. 1)
     \<lparr>id_counter = 1, tracked_persons = [(1, \<lparr>center = (25, 50), timestamp = 0\<rparr>)]\<rparr>
     [detection_of ''Person'' (0, 0, 50, 100) 0.9,
      detection_of ''Person'' (60, 0, 110, 100) 0.8])) = [1, 2] \<and>
   distinct (map pid (fst (track_persons (\<lambda>i. 1)
     \<lparr>id_counter = 1, tracked_persons = [(1, \<lparr>center = (25, 50), timestamp = 0\<rparr>)]\<rparr>
     [detection_of ''Person'' (0, 0, 50, 100) 0.9,
      detection_of ''Person'' (60, 0, 110, 100) 0.8])))"
  (is "detector_inv ?s \<and> far_apart ?ps \<and> _")
proof -
  have inv: "detector_inv ?s" by (simp add: detector_inv_def)
  have far: "far_apart ?ps" by (simp add: centroid_def euclid_horizontal)
  have ev: "map pid (fst (track_persons (\<lambda>i. 1) ?s ?ps)) = [1, 2]"
    by (simp add: track_persons_def track_one_def nearest_loop_step below_def
        euclid_horizontal purge_def Let_def)
  from track_persons_distinct_ids [OF inv far, of "\<lambda>i. 1"]
  have "distinct (map pid (fst (track_persons (\<lambda>i. 1) ?s ?ps)))" by blast
  with inv far ev show ?thesis by blast
qed

end
